theory Spec2Isabelle
  imports Main "HOL-Library.Multiset"
begin

section \<open>The C library as the program uses it\<close>

text \<open>
  A C string is modelled by the list of its bytes before the terminating NUL
  (\<open>strlen\<close> is \<open>length\<close>).  The program never calls \<open>setlocale\<close>, so
  \<open>isspace\<close> and \<open>tolower\<close> are those of the "C" locale.
\<close>

definition newline :: char where
  "newline = CHR 0x0A"

definition isspace :: "char \<Rightarrow> bool" where
  "isspace c = (let n = (of_char c :: nat) in n = 32 \<or> (9 \<le> n \<and> n \<le> 13))"

definition tolower :: "char \<Rightarrow> char" where
  "tolower c = (let n = (of_char c :: nat) in if 65 \<le> n \<and> n \<le> 90 then char_of (n + 32) else c)"

definition isdigit :: "char \<Rightarrow> bool" where
  "isdigit c = (let n = (of_char c :: nat) in 48 \<le> n \<and> n \<le> 57)"

text \<open>What a \<open>char\<close> buffer holds when read as a C string: the bytes before the first NUL.\<close>

definition c_str :: "string \<Rightarrow> string" where
  "c_str buf = takeWhile (\<lambda>c. c \<noteq> CHR 0x00) buf"

text \<open>
  \<open>fgets(buf, n, f)\<close> on the unread rest of a stream: at most \<open>n - 1\<close> bytes, stopping
  after a newline; \<open>None\<close> (NULL) at end of input.  It returns the bytes stored and the
  rest of the stream.
\<close>

fun fgets_chunk :: "nat \<Rightarrow> string \<Rightarrow> string \<times> string" where
  "fgets_chunk 0 inp = ([], inp)"
| "fgets_chunk (Suc k) [] = ([], [])"
| "fgets_chunk (Suc k) (c # cs) =
     (if c = newline then ([c], cs)
      else (case fgets_chunk k cs of (l, r) \<Rightarrow> (c # l, r)))"

definition fgets :: "nat \<Rightarrow> string \<Rightarrow> (string \<times> string) option" where
  "fgets n inp = (if inp = [] then None else Some (fgets_chunk (n - 1) inp))"

text \<open>
  The C \<open>int\<close> is 32 bits wide.  Card fields and the identity counter are kept as
  integers, and where the program computes a value that can leave the range (the doubled
  interval, the identity counter plus one, a loaded identity plus one) the wrap-around
  is written out with \<open>to_int32\<close>.
\<close>

definition to_int32 :: "int \<Rightarrow> int" where
  "to_int32 x = (x + 2147483648) mod 4294967296 - 2147483648"

text \<open>
  \<open>atoi\<close> is \<open>(int) strtol(s, NULL, 10)\<close>: leading white space, an optional sign, then the
  decimal digits.  A value outside the range of \<open>long\<close> saturates (as in glibc, the
  C standard leaves it open), and the conversion to \<open>int\<close> keeps the low 32 bits.
\<close>

fun strtol_digits :: "int \<Rightarrow> string \<Rightarrow> int" where
  "strtol_digits acc [] = acc"
| "strtol_digits acc (c # cs) =
     (if isdigit c then strtol_digits (acc * 10 + (int (of_char c) - 48)) cs else acc)"

definition strtol10 :: "string \<Rightarrow> int" where
  "strtol10 s =
     (case dropWhile isspace s of
        [] \<Rightarrow> 0
      | c # cs \<Rightarrow>
          if c = CHR ''-'' then - strtol_digits 0 cs
          else if c = CHR ''+'' then strtol_digits 0 cs
          else strtol_digits 0 (c # cs))"

definition atoi :: "string \<Rightarrow> int" where
  "atoi s = to_int32 (max (- 9223372036854775808) (min 9223372036854775807 (strtol10 s)))"

text \<open>\<open>printf("%d", n)\<close>: the decimal digits, a minus sign first for a negative number.\<close>

fun dec_digits :: "nat \<Rightarrow> string" where
  "dec_digits n =
     (if n < 10 then [char_of (48 + n)]
      else dec_digits (n div 10) @ [char_of (48 + n mod 10)])"

declare dec_digits.simps [simp del]

definition fmt_d :: "int \<Rightarrow> string" where
  "fmt_d n = (if n < 0 then CHR ''-'' # dec_digits (nat (- n)) else dec_digits (nat n))"

section \<open>Constants\<close>

definition TAG_HASH_SIZE :: nat where
  "TAG_HASH_SIZE = 1031"

definition LINEBUF :: nat where
  "LINEBUF = 4096"

section \<open>Cards, the tag map and the program state\<close>

text \<open>
  \<open>struct Card\<close>.  \<open>tag_count\<close> is the length of \<open>tags\<close>; the \<open>next\<close> pointer is the
  order of the list \<open>cards_head\<close> of the state.
\<close>

record Card =
  card_id :: int
  question :: string
  answer :: string
  tags :: "string list"
  interval :: int
  due_in :: int

text \<open>\<open>struct TagEntry2\<close>: a tag and the list of the cards (pointers) that bear it.\<close>

record TagEntry2 =
  tag :: string
  cards :: "nat list"

text \<open>
  The globals and the heap.  A \<open>Card *\<close> is an address; \<open>heap\<close> gives the card stored at
  an address and \<open>next_ptr\<close> is the next address \<open>malloc\<close> hands out (addresses are not
  reused).  \<open>cards_head\<close> is the linked list of all cards, head first; \<open>tag_map\<close> gives
  the chain of each slot of the hash table; \<open>queue\<close> is the queue \<open>q\<close> of \<open>main\<close>, front
  first, and its \<open>size\<close> field is the length of the list (every queue operation and
  \<open>remove_card_interactive\<close> keep the field equal to the number of nodes).
\<close>

record state =
  heap :: "nat \<Rightarrow> Card"
  next_ptr :: nat
  cards_head :: "nat list"
  next_card_id :: int
  tag_map :: "nat \<Rightarrow> TagEntry2 list"
  queue :: "nat list"

definition init_state :: state where
  "init_state =
     \<lparr>heap = (\<lambda>_. \<lparr>card_id = 0, question = [], answer = [], tags = [], interval = 0, due_in = 0\<rparr>),
      next_ptr = 0, cards_head = [], next_card_id = 1, tag_map = (\<lambda>_. []), queue = []\<rparr>"

subsection \<open>Queue\<close>

definition queue_enqueue :: "nat list \<Rightarrow> nat \<Rightarrow> nat list" where
  "queue_enqueue q c = q @ [c]"

definition queue_dequeue :: "nat list \<Rightarrow> (nat \<times> nat list) option" where
  "queue_dequeue q = (case q of [] \<Rightarrow> None | c # rest \<Rightarrow> Some (c, rest))"

definition queue_size :: "nat list \<Rightarrow> nat" where
  "queue_size q = length q"

text \<open>Draining a queue: dequeue until it is empty, collecting what comes out.\<close>

function drain :: "nat list \<Rightarrow> nat list" where
  "drain q = (case queue_dequeue q of None \<Rightarrow> [] | Some (c, rest) \<Rightarrow> c # drain rest)"
  by pat_completeness auto
termination
  by (relation "measure length") (auto simp: queue_dequeue_def split: list.splits)

declare drain.simps [simp del]

subsection \<open>Tag hash map\<close>

text \<open>\<open>str_hash\<close> is djb2 on a 64-bit \<open>unsigned long\<close>; each step wraps modulo \<open>2 ^ 64\<close>.\<close>

definition str_hash :: "string \<Rightarrow> nat" where
  "str_hash s = fold (\<lambda>c h. ((h * 32) mod 18446744073709551616 + h + of_char c) mod 18446744073709551616) s 5381"

definition slot :: "string \<Rightarrow> nat" where
  "slot t = str_hash t mod TAG_HASH_SIZE"

definition tag_find :: "(nat \<Rightarrow> TagEntry2 list) \<Rightarrow> string \<Rightarrow> TagEntry2 option" where
  "tag_find tm t = find (\<lambda>e. tag e = t) (tm (slot t))"

text \<open>The first entry of a chain with the given tag, changed by \<open>f\<close>.\<close>

fun chain_update :: "string \<Rightarrow> (TagEntry2 \<Rightarrow> TagEntry2) \<Rightarrow> TagEntry2 list \<Rightarrow> TagEntry2 list" where
  "chain_update t f [] = []"
| "chain_update t f (e # es) = (if tag e = t then f e # es else e # chain_update t f es)"

text \<open>The first entry of a chain with the given tag, unlinked.\<close>

fun chain_unlink :: "string \<Rightarrow> TagEntry2 list \<Rightarrow> TagEntry2 list" where
  "chain_unlink t [] = []"
| "chain_unlink t (e # es) = (if tag e = t then es else e # chain_unlink t es)"

definition tag_add_card :: "string \<Rightarrow> nat \<Rightarrow> (nat \<Rightarrow> TagEntry2 list) \<Rightarrow> (nat \<Rightarrow> TagEntry2 list)" where
  "tag_add_card t cptr tm =
     (let h = slot t in
      case find (\<lambda>e. tag e = t) (tm h) of
        None \<Rightarrow> tm(h := \<lparr>tag = t, cards = [cptr]\<rparr> # tm h)
      | Some e \<Rightarrow> tm(h := chain_update t (\<lambda>e. e\<lparr>cards := cptr # cards e\<rparr>) (tm h)))"

definition tag_remove_card_from_tag_entry :: "TagEntry2 \<Rightarrow> nat \<Rightarrow> TagEntry2" where
  "tag_remove_card_from_tag_entry e cptr = e\<lparr>cards := remove1 cptr (cards e)\<rparr>"

text \<open>The body of the loop of \<open>tag_remove_card\<close>, for one tag of the card.\<close>

definition tag_remove_card_step :: "nat \<Rightarrow> string \<Rightarrow> (nat \<Rightarrow> TagEntry2 list) \<Rightarrow> (nat \<Rightarrow> TagEntry2 list)" where
  "tag_remove_card_step cptr t tm =
     (case tag_find tm t of
        None \<Rightarrow> tm
      | Some e \<Rightarrow>
          let e' = tag_remove_card_from_tag_entry e cptr;
              h = slot (tag e')
          in if cards e' = [] then tm(h := chain_unlink t (tm h))
             else tm(h := chain_update t (\<lambda>_. e') (tm h)))"

definition tag_remove_card :: "Card \<Rightarrow> nat \<Rightarrow> (nat \<Rightarrow> TagEntry2 list) \<Rightarrow> (nat \<Rightarrow> TagEntry2 list)" where
  "tag_remove_card c cptr tm = fold (tag_remove_card_step cptr) (tags c) tm"

subsection \<open>Card storage\<close>

definition create_card :: "string \<Rightarrow> string \<Rightarrow> string list \<Rightarrow> state \<Rightarrow> nat \<times> state" where
  "create_card q a tgs s =
     (let c = next_ptr s;
          obj = \<lparr>card_id = next_card_id s, question = q, answer = a, tags = tgs,
                 interval = 1, due_in = 0\<rparr>
      in (c, s\<lparr>heap := (heap s)(c := obj),
               next_ptr := Suc c,
               next_card_id := to_int32 (next_card_id s + 1),
               cards_head := c # cards_head s,
               tag_map := fold (\<lambda>t. tag_add_card t c) tgs (tag_map s)\<rparr>))"

definition delete_card :: "nat \<Rightarrow> state \<Rightarrow> state" where
  "delete_card c s =
     s\<lparr>cards_head := remove1 c (cards_head s),
       tag_map := tag_remove_card (heap s c) c (tag_map s)\<rparr>"

definition find_card_by_id :: "state \<Rightarrow> int \<Rightarrow> nat option" where
  "find_card_by_id s i = find (\<lambda>c. card_id (heap s c) = i) (cards_head s)"

subsection \<open>Trimming and tag normalisation\<close>

definition trim_newline :: "string \<Rightarrow> string" where
  "trim_newline s = rev (dropWhile (\<lambda>c. c = newline \<or> c = CHR 0x0D) (rev s))"

definition str_ltrim :: "string \<Rightarrow> string" where
  "str_ltrim s = dropWhile isspace s"

definition str_rtrim :: "string \<Rightarrow> string" where
  "str_rtrim s = rev (dropWhile isspace (rev s))"

definition trim_whitespace :: "string \<Rightarrow> string" where
  "trim_whitespace s = str_rtrim (str_ltrim s)"

definition normalize_tag :: "string \<Rightarrow> string" where
  "normalize_tag s = map tolower (trim_whitespace s)"

text \<open>The tokens \<open>strsep(&p, ",")\<close> returns one after the other: the pieces between the commas.\<close>

fun strsep_all :: "string \<Rightarrow> string list" where
  "strsep_all [] = [[]]"
| "strsep_all (c # cs) =
     (if c = CHR '','' then [] # strsep_all cs
      else (case strsep_all cs of [] \<Rightarrow> [[c]] | tok # toks \<Rightarrow> (c # tok) # toks))"

fun parse_tokens :: "string list \<Rightarrow> string list" where
  "parse_tokens [] = []"
| "parse_tokens (tok # toks) =
     (let t = trim_whitespace tok
      in if length t = 0 then parse_tokens toks
         else normalize_tag t # parse_tokens toks)"

definition parse_tags :: "string \<Rightarrow> string list" where
  "parse_tags line = parse_tokens (strsep_all line)"

section \<open>Persistence\<close>

text \<open>
  What \<open>save_cards_to_file\<close> prints for one card, and for the whole card list.  The
  file system is a map from file names to contents; opening for writing is taken to
  succeed.
\<close>

fun join_tags :: "string list \<Rightarrow> string" where
  "join_tags [] = []"
| "join_tags [t] = t"
| "join_tags (t # ts) = t @ '','' @ join_tags ts"

definition card_block :: "Card \<Rightarrow> string" where
  "card_block c =
     ''ID='' @ fmt_d (card_id c) @ [newline] @
     ''Q='' @ question c @ [newline] @
     ''A='' @ answer c @ [newline] @
     ''T='' @ join_tags (tags c) @ [newline] @
     ''I='' @ fmt_d (interval c) @ [newline] @
     ''D='' @ fmt_d (due_in c) @ [newline] @
     ''---'' @ [newline]"

definition file_text :: "state \<Rightarrow> string" where
  "file_text s = concat (map (\<lambda>c. card_block (heap s c)) (cards_head s))"

definition save_cards_to_file :: "string \<Rightarrow> state \<Rightarrow> (string \<rightharpoonup> string) \<Rightarrow> (string \<rightharpoonup> string)" where
  "save_cards_to_file filename s fs = fs(filename \<mapsto> file_text s)"

definition clear_all_data :: "state \<Rightarrow> state" where
  "clear_all_data s = s\<lparr>tag_map := (\<lambda>_. []), cards_head := [], queue := []\<rparr>"

text \<open>The local variables of \<open>load_cards_from_file\<close>; \<open>None\<close> is the NULL pointer.\<close>

record load_vars =
  lv_id :: int
  lv_interval :: int
  lv_due :: int
  qtext :: "string option"
  atext :: "string option"
  tagsline :: "string option"

definition load_vars_init :: load_vars where
  "load_vars_init = \<lparr>lv_id = 0, lv_interval = 1, lv_due = 0, qtext = None, atext = None, tagsline = None\<rparr>"

text \<open>
  The block that builds a card from the variables (it stands twice in the source: at
  the separator line and after the loop).
\<close>

definition load_commit :: "load_vars \<Rightarrow> state \<Rightarrow> state" where
  "load_commit v s =
     (case (qtext v, atext v) of
        (Some q, Some a) \<Rightarrow>
          let tks = parse_tags (case tagsline v of None \<Rightarrow> [] | Some l \<Rightarrow> l);
              (c, s1) = create_card q a tks s;
              s2 = s1\<lparr>heap := (heap s1)(c := (heap s1 c)\<lparr>interval := (if lv_interval v > 0 then lv_interval v else 1)\<rparr>)\<rparr>;
              s3 = s2\<lparr>heap := (heap s2)(c := (heap s2 c)\<lparr>due_in := (if lv_due v \<ge> 0 then lv_due v else 0)\<rparr>)\<rparr>;
              s4 = (if lv_id v \<ge> next_card_id s3 then s3\<lparr>next_card_id := to_int32 (lv_id v + 1)\<rparr> else s3)
          in s4\<lparr>queue := queue_enqueue (queue s4) c\<rparr>
      | _ \<Rightarrow> s)"

text \<open>One line of the file, already through \<open>trim_newline\<close>.\<close>

definition load_line :: "string \<Rightarrow> load_vars \<Rightarrow> state \<Rightarrow> load_vars \<times> state" where
  "load_line line v s =
     (if take 3 line = ''ID='' then (v\<lparr>lv_id := atoi (drop 3 line)\<rparr>, s)
      else if take 2 line = ''Q='' then (v\<lparr>qtext := Some (drop 2 line)\<rparr>, s)
      else if take 2 line = ''A='' then (v\<lparr>atext := Some (drop 2 line)\<rparr>, s)
      else if take 2 line = ''T='' then (v\<lparr>tagsline := Some (drop 2 line)\<rparr>, s)
      else if take 2 line = ''I='' then (v\<lparr>lv_interval := atoi (drop 2 line)\<rparr>, s)
      else if take 2 line = ''D='' then (v\<lparr>lv_due := atoi (drop 2 line)\<rparr>, s)
      else if line = ''---'' then (load_vars_init, load_commit v s)
      else (v, s))"

lemma fgets_chunk_length:
  "fgets_chunk k inp = (l, r) \<Longrightarrow> length l + length r = length inp"
  by (induction k inp arbitrary: l r rule: fgets_chunk.induct)
    (auto split: if_splits prod.splits)

lemma fgets_chunk_nonempty:
  "fgets_chunk (Suc k) (c # cs) = (l, r) \<Longrightarrow> l \<noteq> []"
  by (auto split: if_splits prod.splits)

lemma fgets_shorter:
  assumes "fgets n inp = Some (l, r)" and "2 \<le> n"
  shows "length r < length inp"
proof -
  from assms obtain k c cs where n: "n - 1 = Suc k" and inp: "inp = c # cs"
    by (cases inp; cases "n - 1") (auto simp: fgets_def)
  with assms have ch: "fgets_chunk (Suc k) (c # cs) = (l, r)"
    by (simp add: fgets_def)
  from fgets_chunk_nonempty[OF ch] fgets_chunk_length[OF ch] inp show ?thesis
    by (cases l) auto
qed

text \<open>The loop \<open>while (fgets(line, sizeof(line), f))\<close> over the unread rest of the file.\<close>

function load_loop :: "string \<Rightarrow> load_vars \<Rightarrow> state \<Rightarrow> load_vars \<times> state" where
  "load_loop f v s =
     (case fgets LINEBUF f of
        None \<Rightarrow> (v, s)
      | Some (line, f') \<Rightarrow>
          (case load_line (trim_newline (c_str line)) v s of
             (v', s') \<Rightarrow> load_loop f' v' s'))"
  by pat_completeness auto
termination
  by (relation "measure (\<lambda>(f, v, s). length f)")
    (auto simp: LINEBUF_def dest: fgets_shorter)

declare load_loop.simps [simp del]

text \<open>\<open>load_cards_from_file\<close> on the contents of the file, once it is open.\<close>

definition load_text :: "string \<Rightarrow> state \<Rightarrow> state" where
  "load_text f s = (case load_loop f load_vars_init (clear_all_data s) of (v, s') \<Rightarrow> load_commit v s')"

definition load_cards_from_file :: "string \<Rightarrow> (string \<rightharpoonup> string) \<Rightarrow> state \<Rightarrow> state" where
  "load_cards_from_file filename fs s =
     (case fs filename of None \<Rightarrow> s | Some f \<Rightarrow> load_text f s)"

section \<open>Practice scheduler\<close>

text \<open>
  How \<open>practice_loop\<close> ends: no cards at the start, the queue found empty, the user
  typed \<open>q\<close>, or \<open>fgets\<close> returned NULL while the given card was presented.
\<close>

datatype practice_exit = NoCards | QueueEmpty | Stopped | InputEnded nat

text \<open>
  The inner loop \<open>while (scanned < initial_size)\<close>: the card found (or NULL), the final
  value of \<open>scanned\<close>, and the state.
\<close>

function scan_loop :: "nat \<Rightarrow> nat \<Rightarrow> state \<Rightarrow> nat option \<times> nat \<times> state" where
  "scan_loop initial_size scanned s =
     (if scanned < initial_size then
        (case queue_dequeue (queue s) of
           None \<Rightarrow> (None, scanned, s)
         | Some (c, rest) \<Rightarrow>
             if due_in (heap s c) > 0 then
               scan_loop initial_size (Suc scanned)
                 (s\<lparr>heap := (heap s)(c := (heap s c)\<lparr>due_in := due_in (heap s c) - 1\<rparr>),
                    queue := queue_enqueue rest c\<rparr>)
             else (Some c, scanned, s\<lparr>queue := rest\<rparr>))
      else (None, scanned, s))"
  by pat_completeness auto
termination
  by (relation "measure (\<lambda>(n, k, s). n - k)") auto

declare scan_loop.simps [simp del]

text \<open>
  The two branches after the verdict.  \<open>c->interval * 2\<close> is a 32-bit multiplication;
  the source clamps the product to at least 1.
\<close>

definition grade_correct :: "nat \<Rightarrow> state \<Rightarrow> state" where
  "grade_correct c s =
     (let i = to_int32 (interval (heap s c) * 2);
          i' = (if i < 1 then 1 else i)
      in s\<lparr>heap := (heap s)(c := (heap s c)\<lparr>interval := i', due_in := i'\<rparr>)\<rparr>)"

definition grade_incorrect :: "nat \<Rightarrow> state \<Rightarrow> state" where
  "grade_incorrect c s = s\<lparr>heap := (heap s)(c := (heap s c)\<lparr>interval := 1, due_in := 1\<rparr>)\<rparr>"

text \<open>The test \<open>cmd[0] == 'y' || cmd[0] == 'Y'\<close>.\<close>

definition said_yes :: "string \<Rightarrow> bool" where
  "said_yes cmd = (case cmd of [] \<Rightarrow> False | ch # _ \<Rightarrow> ch = CHR ''y'' \<or> ch = CHR ''Y'')"

text \<open>The verdict applied to the presented card, and the card put back at the tail.\<close>

definition grade :: "string \<Rightarrow> nat \<Rightarrow> state \<Rightarrow> state" where
  "grade cmd c s =
     (let s' = (if said_yes cmd then grade_correct c s else grade_incorrect c s)
      in s'\<lparr>queue := queue_enqueue (queue s') c\<rparr>)"

text \<open>The sum of the waits of the queued cards: it decreases in a scan that presents nothing.\<close>

definition wait_sum :: "state \<Rightarrow> nat" where
  "wait_sum s = sum_list (map (\<lambda>c. nat (due_in (heap s c))) (queue s))"

lemma scan_loop_none_wait:
  "scan_loop n k s = (None, k', s') \<Longrightarrow>
     wait_sum s' \<le> wait_sum s \<and> length (queue s') = length (queue s) \<and>
     (k < n \<and> queue s \<noteq> [] \<longrightarrow> wait_sum s' < wait_sum s)"
proof (induction n k s rule: scan_loop.induct)
  case (1 n k s)
  show ?case
  proof (cases "k < n")
    case False
    with "1.prems" show ?thesis by (simp add: scan_loop.simps)
  next
    case True
    show ?thesis
    proof (cases "queue s")
      case Nil
      with True "1.prems" show ?thesis
        by (simp add: scan_loop.simps queue_dequeue_def)
    next
      case (Cons c rest)
      let ?s1 = "s\<lparr>heap := (heap s)(c := (heap s c)\<lparr>due_in := due_in (heap s c) - 1\<rparr>),
                    queue := queue_enqueue rest c\<rparr>"
      from True Cons "1.prems" have pos: "due_in (heap s c) > 0"
        by (auto simp: scan_loop.simps queue_dequeue_def split: if_splits)
      with True Cons "1.prems" have run: "scan_loop n (Suc k) ?s1 = (None, k', s')"
        by (simp add: scan_loop.simps[of n k] queue_dequeue_def)
      have deq: "queue_dequeue (queue s) = Some (c, rest)"
        by (simp add: Cons queue_dequeue_def)
      from "1.IH"[OF True deq refl pos run]
      have ih: "wait_sum s' \<le> wait_sum ?s1" "length (queue s') = length (queue ?s1)"
        by auto
      have "sum_list (map (\<lambda>x. nat (due_in (if x = c then (heap s c)\<lparr>due_in := due_in (heap s c) - 1\<rparr> else heap s x))) rest)
              \<le> sum_list (map (\<lambda>x. nat (due_in (heap s x))) rest)"
        by (rule sum_list_mono) auto
      with pos have "wait_sum ?s1 < wait_sum s"
        by (simp add: wait_sum_def Cons queue_enqueue_def fun_upd_def)
      with ih Cons show ?thesis
        by (simp add: queue_enqueue_def)
    qed
  qed
qed

text \<open>
  The outer loop \<open>while (cont)\<close> on the state and the unread standard input: how it
  ends, the final state, and the input left.
\<close>

function practice_while :: "state \<Rightarrow> string \<Rightarrow> practice_exit \<times> state \<times> string" where
  "practice_while s inp =
     (case scan_loop (queue_size (queue s)) 0 s of
        (None, scanned, s1) \<Rightarrow>
          if queue_size (queue s1) = 0 then (QueueEmpty, s1, inp)
          else practice_while s1 inp
      | (Some c, scanned, s1) \<Rightarrow>
          (case fgets 16 inp of
             None \<Rightarrow> (InputEnded c, s1, inp)
           | Some (cmd, inp1) \<Rightarrow>
               if trim_newline (c_str cmd) = ''q''
               then (Stopped, s1\<lparr>queue := queue_enqueue (queue s1) c\<rparr>, inp1)
               else
                 (case fgets 16 inp1 of
                    None \<Rightarrow> (InputEnded c, s1, inp1)
                  | Some (cmd2, inp2) \<Rightarrow>
                      if trim_newline (c_str cmd2) = ''q''
                      then (Stopped, s1\<lparr>queue := queue_enqueue (queue s1) c\<rparr>, inp2)
                      else practice_while (grade (trim_newline (c_str cmd2)) c s1) inp2)))"
  by pat_completeness auto
termination
proof (relation "(\<lambda>(s, inp). length inp) <*mlex*> measure (\<lambda>(s, inp). wait_sum s)", goal_cases)
  case 1
  show ?case by (simp add: wf_mlex)
next
  case (2 s inp x1 x2 scanned s1)
  then have sc: "scan_loop (length (queue s)) 0 s = (None, scanned, s1)" and ne: "queue s1 \<noteq> []"
    by (auto simp: queue_size_def)
  from scan_loop_none_wait[OF sc] ne have "wait_sum s1 < wait_sum s"
    by (cases "queue s") auto
  then show ?case by (simp add: mlex_prod_def)
next
  case (3 s inp x1 x2 scanned s1 c y cmd inp1 z cmd2 inp2)
  then have "length inp1 < length inp" "length inp2 < length inp1"
    by (auto dest: fgets_shorter)
  then show ?case by (simp add: mlex_prod_def)
qed

declare practice_while.simps [simp del]

definition practice_loop :: "state \<Rightarrow> string \<Rightarrow> practice_exit \<times> state \<times> string" where
  "practice_loop s inp =
     (if queue_size (queue s) = 0 then (NoCards, s, inp) else practice_while s inp)"

section \<open>User interface\<close>

text \<open>The cards of the entry of a tag, in the order of its list; none when there is no entry.\<close>

definition tag_cards :: "(nat \<Rightarrow> TagEntry2 list) \<Rightarrow> string \<Rightarrow> nat list" where
  "tag_cards tm t = (case tag_find tm t of None \<Rightarrow> [] | Some e \<Rightarrow> cards e)"

text \<open>
  \<open>search_by_tag\<close>: the cards it lists, in order.  The query is copied into a buffer of
  256 bytes (\<open>strncpy\<close> of 255 bytes) before it is normalised.
\<close>

definition search_by_tag :: "state \<Rightarrow> string \<Rightarrow> nat list" where
  "search_by_tag s tg = tag_cards (tag_map s) (normalize_tag (take 255 tg))"

datatype add_result = AddInputEnded | EmptyQuestion | Added nat

definition add_card_interactive :: "state \<Rightarrow> string \<Rightarrow> add_result \<times> state \<times> string" where
  "add_card_interactive s inp =
     (case fgets LINEBUF inp of
        None \<Rightarrow> (AddInputEnded, s, inp)
      | Some (buf1, inp1) \<Rightarrow>
          let qtxt = trim_newline (c_str buf1) in
          if length qtxt = 0 then (EmptyQuestion, s, inp1)
          else
            (case fgets LINEBUF inp1 of
               None \<Rightarrow> (AddInputEnded, s, inp1)
             | Some (buf2, inp2) \<Rightarrow>
                 let atxt = trim_newline (c_str buf2) in
                 (case fgets LINEBUF inp2 of
                    None \<Rightarrow> (AddInputEnded, s, inp2)
                  | Some (buf3, inp3) \<Rightarrow>
                      let tks = parse_tags (trim_newline (c_str buf3));
                          (c, s1) = create_card qtxt atxt tks s;
                          s2 = s1\<lparr>heap := (heap s1)(c := (heap s1 c)\<lparr>due_in := 0\<rparr>)\<rparr>
                      in (Added c, s2\<lparr>queue := queue_enqueue (queue s2) c\<rparr>, inp3))))"

datatype remove_result = RemoveInputEnded | NotFound int | Deleted nat

definition remove_card_interactive :: "state \<Rightarrow> string \<Rightarrow> remove_result \<times> state \<times> string" where
  "remove_card_interactive s inp =
     (case fgets 64 inp of
        None \<Rightarrow> (RemoveInputEnded, s, inp)
      | Some (buf, inp1) \<Rightarrow>
          let i = atoi (c_str buf) in
          (case find_card_by_id s i of
             None \<Rightarrow> (NotFound i, s, inp1)
           | Some c \<Rightarrow>
               (Deleted c, delete_card c (s\<lparr>queue := filter (\<lambda>x. x \<noteq> c) (queue s)\<rparr>), inp1)))"

definition load_sample_cards :: "state \<Rightarrow> state" where
  "load_sample_cards s =
     (let (c1, s1) = create_card ''What is FIFO in queues?'' ''First In First Out'' [''queue'', ''ds''] s;
          (c2, s2) = create_card ''How to handle collisions in hash map?''
                       ''Use chaining (linked lists) or open addressing'' [''hashmap'', ''ds''] s1;
          (c3, s3) = create_card ''What is enqueue operation?'' ''Insert element at the tail of queue''
                       [''queue'', ''srs''] s2
      in s3\<lparr>queue := fold (\<lambda>c q. queue_enqueue q c) (cards_head s3) (queue s3)\<rparr>)"

text \<open>
  The states \<open>main\<close> can be in at its menu: it starts from the sample cards, and each
  menu choice that changes the state runs one of the operations, on any input.
\<close>

inductive reachable :: "state \<Rightarrow> bool" where
  start: "reachable (load_sample_cards init_state)"
| practice: "reachable s \<Longrightarrow> practice_loop s inp = (x, s', inp') \<Longrightarrow> reachable s'"
| add: "reachable s \<Longrightarrow> add_card_interactive s inp = (r, s', inp') \<Longrightarrow> reachable s'"
| remove: "reachable s \<Longrightarrow> remove_card_interactive s inp = (d, s', inp') \<Longrightarrow> reachable s'"
| load: "reachable s \<Longrightarrow> reachable (load_cards_from_file filename fs s)"

text \<open>
  The states reached by the operations that create cards (each followed by its enqueue)
  and delete them: adding, deleting and loading, without practice.
\<close>

inductive added_deleted :: "state \<Rightarrow> bool" where
  empty: "added_deleted init_state"
| sample: "added_deleted (load_sample_cards init_state)"
| add: "added_deleted s \<Longrightarrow> add_card_interactive s inp = (r, s', inp') \<Longrightarrow> added_deleted s'"
| remove: "added_deleted s \<Longrightarrow> remove_card_interactive s inp = (d, s', inp') \<Longrightarrow> added_deleted s'"
| load: "added_deleted s \<Longrightarrow> added_deleted (load_cards_from_file filename fs s)"

section \<open>Invariants\<close>

text \<open>The scheduling fields of every card of the card list are in range.\<close>

definition sched_ok :: "state \<Rightarrow> bool" where
  "sched_ok s = (\<forall>c\<in>set (cards_head s). 1 \<le> interval (heap s c) \<and> 0 \<le> due_in (heap s c))"

text \<open>
  The card list and the queue hold the same cards, each once, at addresses below the
  address counter.
\<close>

definition store_ok :: "state \<Rightarrow> bool" where
  "store_ok s =
     (distinct (cards_head s) \<and> mset (queue s) = mset (cards_head s) \<and>
      (\<forall>c\<in>set (cards_head s). c < next_ptr s))"

text \<open>
  The identity counter has not wrapped: it is positive, and the identities of the cards
  of the list are positive, below it, and pairwise different.
\<close>

definition ids_ok :: "state \<Rightarrow> bool" where
  "ids_ok s =
     (1 \<le> next_card_id s \<and>
      (\<forall>c\<in>set (cards_head s). 1 \<le> card_id (heap s c) \<and> card_id (heap s c) < next_card_id s) \<and>
      distinct (map (\<lambda>c. card_id (heap s c)) (cards_head s)))"

text \<open>
  The tag map agrees with the card list: in every chain the tags are distinct, every
  entry hangs in the slot of its tag and lists at least one card; the entry of a tag
  lists a card of the card list as often as the card's own tag list names the tag, and
  no other card; the cards of the list are distinct and below the address counter.
\<close>

definition chain_ok :: "nat \<Rightarrow> TagEntry2 list \<Rightarrow> bool" where
  "chain_ok h ch = (distinct (map tag ch) \<and> (\<forall>e\<in>set ch. slot (tag e) = h \<and> cards e \<noteq> []))"

definition tag_ok :: "state \<Rightarrow> bool" where
  "tag_ok s =
     ((\<forall>h. chain_ok h (tag_map s h)) \<and>
      (\<forall>t c. count_list (tag_cards (tag_map s) t) c =
         (if c \<in> set (cards_head s) then count_list (tags (heap s c)) t else 0)) \<and>
      distinct (cards_head s) \<and> (\<forall>c\<in>set (cards_head s). c < next_ptr s))"

text \<open>
  The text fields as the program produces them.  A question, an answer or a tags line
  holds no newline and no NUL and does not end in a carriage return; a tag is not
  empty, holds no comma, newline or NUL, and is trimmed and in lower case.  Interval and
  \<open>due_in\<close> are within the range of \<open>int\<close>.
\<close>

definition line_text_ok :: "string \<Rightarrow> bool" where
  "line_text_ok l = (newline \<notin> set l \<and> CHR 0x00 \<notin> set l \<and> (l \<noteq> [] \<longrightarrow> last l \<noteq> CHR 0x0D))"

definition tag_text_ok :: "string \<Rightarrow> bool" where
  "tag_text_ok t =
     (t \<noteq> [] \<and> CHR '','' \<notin> set t \<and> newline \<notin> set t \<and> CHR 0x00 \<notin> set t \<and>
      trim_whitespace t = t \<and> map tolower t = t)"

definition card_ok :: "Card \<Rightarrow> bool" where
  "card_ok cd =
     (line_text_ok (question cd) \<and> line_text_ok (answer cd) \<and>
      (\<forall>t\<in>set (tags cd). tag_text_ok t) \<and>
      1 \<le> interval cd \<and> interval cd \<le> 2147483647 \<and>
      0 \<le> due_in cd \<and> due_in cd \<le> 2147483647)"

definition fields_ok :: "state \<Rightarrow> bool" where
  "fields_ok s = (\<forall>c\<in>set (cards_head s). card_ok (heap s c))"

text \<open>The same for the local variables of \<open>load_cards_from_file\<close>.\<close>

definition vars_ok :: "load_vars \<Rightarrow> bool" where
  "vars_ok v =
     ((\<forall>q. qtext v = Some q \<longrightarrow> line_text_ok q) \<and>
      (\<forall>a. atext v = Some a \<longrightarrow> line_text_ok a) \<and>
      (\<forall>l. tagsline v = Some l \<longrightarrow> line_text_ok l) \<and>
      lv_interval v \<le> 2147483647 \<and> lv_due v \<le> 2147483647)"

text \<open>
  What a round trip through a file is to keep of a card, and the cards whose lines fit
  the buffer the loader reads lines with: a line of up to 4095 bytes (the two bytes of
  \<open>Q=\<close>, \<open>A=\<close> or \<open>T=\<close> and 4093 more) is read back whole.  The identity is taken to
  be within the range of \<open>int\<close>.
\<close>

definition card_content :: "Card \<Rightarrow> string \<times> string \<times> string list \<times> int \<times> int" where
  "card_content cd = (question cd, answer cd, tags cd, interval cd, due_in cd)"

definition fits_line_buffer :: "Card \<Rightarrow> bool" where
  "fits_line_buffer cd =
     (length (question cd) \<le> 4093 \<and> length (answer cd) \<le> 4093 \<and>
      length (join_tags (tags cd)) \<le> 4093 \<and>
      - 2147483648 \<le> card_id cd \<and> card_id cd \<le> 2147483647)"

text \<open>The values of the loader's variables when it has read the block of a card.\<close>

definition vars_of :: "Card \<Rightarrow> load_vars" where
  "vars_of cd =
     \<lparr>lv_id = atoi (fmt_d (card_id cd)), lv_interval = interval cd, lv_due = due_in cd,
      qtext = Some (question cd), atext = Some (answer cd),
      tagsline = Some (join_tags (tags cd))\<rparr>"

section \<open>Example inputs\<close>

text \<open>
  A file as \<open>save_cards_to_file\<close> writes it, for one card whose interval is \<open>2 ^ 30\<close>
  (the value thirty correct answers in a row reach).
\<close>

definition big_file :: string where
  "big_file = card_block \<lparr>card_id = 1, question = ''a'', answer = ''b'', tags = [],
                          interval = 1073741824, due_in = 0\<rparr>"

text \<open>The sample cards, the card at the front of the queue waiting one more rotation.\<close>

definition waiting_state :: state where
  "waiting_state =
     (load_sample_cards init_state)
       \<lparr>heap := (heap (load_sample_cards init_state))
                  (2 := (heap (load_sample_cards init_state) 2)\<lparr>due_in := 1\<rparr>)\<rparr>"



text \<open>A card whose question is 4094 bytes long, typed in after the sample cards.\<close>

definition long_input :: string where
  "long_input = replicate 4094 CHR ''a'' @ newline # ''A'' @ newline # newline # []"

definition long_state :: state where
  "long_state = fst (snd (add_card_interactive (load_sample_cards init_state) long_input))"

text \<open>
  A file of three cards whose first block names the largest \<open>int\<close> as its identity and
  whose second block names 3, and the state after loading it over the sample cards.
\<close>

definition wrap_file :: string where
  "wrap_file =
     ''ID=2147483647'' @ newline # ''Q=a'' @ newline # ''A=b'' @ newline # ''---'' @ newline #
     ''ID=3'' @ newline # ''Q=c'' @ newline # ''A=d'' @ newline # ''---'' @ newline #
     ''Q=e'' @ newline # ''A=f'' @ newline # ''---'' @ newline # []"

definition wrap_state :: state where
  "wrap_state =
     load_cards_from_file ''cards.txt'' [''cards.txt'' \<mapsto> wrap_file] (load_sample_cards init_state)"

section \<open>Tag normalisation and search\<close>

lemma isspace_tolower: "isspace (tolower c) = isspace c"
  by (auto simp: isspace_def tolower_def Let_def)

lemma tolower_idem: "tolower (tolower c) = tolower c"
  by (auto simp: tolower_def Let_def)

lemma str_ltrim_map_tolower: "str_ltrim (map tolower s) = map tolower (str_ltrim s)"
  by (simp add: str_ltrim_def dropWhile_map comp_def isspace_tolower)

lemma str_rtrim_map_tolower: "str_rtrim (map tolower s) = map tolower (str_rtrim s)"
  by (simp add: str_rtrim_def dropWhile_map comp_def isspace_tolower rev_map)

lemma trim_whitespace_map_tolower:
  "trim_whitespace (map tolower s) = map tolower (trim_whitespace s)"
  by (simp add: trim_whitespace_def str_ltrim_map_tolower str_rtrim_map_tolower)

lemma str_rtrim_idem: "str_rtrim (str_rtrim s) = str_rtrim s"
  by (simp add: str_rtrim_def dropWhile_idem)

lemma str_rtrim_prefix: "\<exists>zs. s = str_rtrim s @ zs \<and> (\<forall>z\<in>set zs. isspace z)"
proof -
  have "rev s = takeWhile isspace (rev s) @ dropWhile isspace (rev s)" by simp
  then have "s = rev (dropWhile isspace (rev s)) @ rev (takeWhile isspace (rev s))"
    by (metis rev_append rev_rev_ident)
  moreover have "\<forall>z\<in>set (rev (takeWhile isspace (rev s))). isspace z"
    by (auto dest: set_takeWhileD)
  ultimately show ?thesis unfolding str_rtrim_def by blast
qed

lemma str_ltrim_rtrim_fixed:
  assumes "str_ltrim s = s"
  shows "str_ltrim (str_rtrim s) = str_rtrim s"
proof (cases "str_rtrim s")
  case Nil
  then show ?thesis by (simp add: str_ltrim_def)
next
  case (Cons a as)
  from str_rtrim_prefix[of s] obtain zs where s: "s = str_rtrim s @ zs" by blast
  with Cons have "s = a # as @ zs" by simp
  with assms have "\<not> isspace a"
    by (metis dropWhile_eq_Cons_conv str_ltrim_def)
  with Cons show ?thesis by (simp add: str_ltrim_def)
qed

lemma trim_whitespace_idem: "trim_whitespace (trim_whitespace s) = trim_whitespace s"
proof -
  have "str_ltrim (str_ltrim s) = str_ltrim s"
    by (simp add: str_ltrim_def dropWhile_idem)
  then have "str_ltrim (str_rtrim (str_ltrim s)) = str_rtrim (str_ltrim s)"
    by (rule str_ltrim_rtrim_fixed)
  then show ?thesis by (simp add: trim_whitespace_def str_rtrim_idem)
qed

lemma normalize_tag_idem: "normalize_tag (normalize_tag s) = normalize_tag s"
  by (simp add: normalize_tag_def trim_whitespace_map_tolower trim_whitespace_idem tolower_idem)

lemma length_trim_whitespace: "length (trim_whitespace s) \<le> length s"
proof -
  have "length (str_rtrim (str_ltrim s)) \<le> length (str_ltrim s)"
    unfolding str_rtrim_def by (simp add: length_dropWhile_le le_trans[OF length_dropWhile_le])
  also have "\<dots> \<le> length s" by (simp add: str_ltrim_def length_dropWhile_le)
  finally show ?thesis by (simp add: trim_whitespace_def)
qed

lemma length_normalize_tag: "length (normalize_tag s) \<le> length s"
  by (simp add: normalize_tag_def length_trim_whitespace)

text \<open>The slots of the tags used in the examples below.\<close>

lemma slots: "slot ''queue'' = 803" "slot ''ds'' = 27" "slot ''hashmap'' = 714" "slot ''srs'' = 812" "slot ''queu'' = 115"
  by (simp_all add: slot_def str_hash_def TAG_HASH_SIZE_def)

lemma str_ltrim_spaces: "dropWhile isspace (replicate n CHR '' '' @ xs) = dropWhile isspace xs"
  by (induction n) (simp_all add: isspace_def)

lemma norm_cut: "normalize_tag (take 255 (replicate 251 CHR '' '' @ ''queue'')) = ''queu''"
  by (simp add: normalize_tag_def trim_whitespace_def str_ltrim_def str_rtrim_def str_ltrim_spaces)
    (simp add: isspace_def tolower_def)

lemma norm_full: "normalize_tag (replicate 251 CHR '' '' @ ''queue'') = ''queue''"
  by (simp add: normalize_tag_def trim_whitespace_def str_ltrim_def str_rtrim_def str_ltrim_spaces)
    (simp add: isspace_def tolower_def)

lemma norm_queue: "normalize_tag (take 255 ''queue'') = ''queue''"
  by (simp add: normalize_tag_def trim_whitespace_def str_ltrim_def str_rtrim_def isspace_def tolower_def)

lemma sample_queue: "tag_cards (tag_map (load_sample_cards init_state)) ''queue'' = [2, 0]"
  by (simp add: tag_cards_def tag_find_def load_sample_cards_def create_card_def
      init_state_def tag_add_card_def slots Let_def)

lemma sample_queu: "tag_cards (tag_map (load_sample_cards init_state)) ''queu'' = []"
  by (simp add: tag_cards_def tag_find_def load_sample_cards_def create_card_def
      init_state_def tag_add_card_def slots Let_def)

text \<open>
  C7 (as amended).  \<open>search_by_tag\<close> normalises the query after cutting it to 255 bytes:
  for every query of at most 255 bytes, searching for the query and searching for its
  normal form (trimmed, lower-cased) list the same cards.
\<close>

theorem search_by_tag_normalizes:
  assumes "length q \<le> 255"
  shows "search_by_tag s q = search_by_tag s (normalize_tag q)"
proof -
  from assms length_normalize_tag[of q] have "length (normalize_tag q) \<le> 255" by simp
  with assms show ?thesis by (simp add: search_by_tag_def normalize_tag_idem)
qed

theorem search_by_tag_normalizes_witness:
  "length ''QUEUE '' \<le> 255 \<and>
   search_by_tag (load_sample_cards init_state) ''QUEUE '' =
   search_by_tag (load_sample_cards init_state) (normalize_tag ''QUEUE '')"
  using search_by_tag_normalizes[of "''QUEUE ''" "load_sample_cards init_state"] by simp

text \<open>
  C7 as stated fails for a longer query: 251 spaces followed by \<open>queue\<close> normalise to
  \<open>queue\<close>, which two sample cards bear, but the search cuts the query to 255 bytes,
  looks for \<open>queu\<close> and lists nothing.
\<close>

theorem search_by_tag_long_query_counterexample:
  "search_by_tag (load_sample_cards init_state) (replicate 251 CHR '' '' @ ''queue'')
   \<noteq> search_by_tag (load_sample_cards init_state)
        (normalize_tag (replicate 251 CHR '' '' @ ''queue''))"
  unfolding search_by_tag_def norm_cut norm_full norm_queue sample_queue sample_queu
  by simp

section \<open>Reading lines\<close>

lemma fgets_chunk_line:
  "newline \<notin> set l \<Longrightarrow> length l < k \<Longrightarrow> fgets_chunk k (l @ newline # rest) = (l @ [newline], rest)"
proof (induction l arbitrary: k)
  case Nil
  then show ?case by (cases k) auto
next
  case (Cons a l)
  then show ?case by (cases k) auto
qed

lemma fgets_line:
  "newline \<notin> set l \<Longrightarrow> Suc (length l) < n \<Longrightarrow> fgets n (l @ newline # rest) = Some (l @ [newline], rest)"
  by (simp add: fgets_def fgets_chunk_line)

lemma fgets_Nil [simp]: "fgets n [] = None"
  by (simp add: fgets_def)

lemma fgets_None_iff: "fgets n inp = None \<longleftrightarrow> inp = []"
  by (simp add: fgets_def)

lemma trim_newline_simps [simp]:
  "trim_newline [] = []"
  "trim_newline (l @ [newline]) = trim_newline l"
  by (simp_all add: trim_newline_def)

lemma in1: "fgets LINEBUF [newline] = Some ([newline], [])"
  using fgets_line[of "[]" LINEBUF "[]"] by (simp add: LINEBUF_def)

lemma c_str_nl: "c_str [newline] = [newline]"
  by (simp add: c_str_def newline_def)

lemma c_str_id: "CHR 0x00 \<notin> set l \<Longrightarrow> c_str l = l"
  by (auto simp: c_str_def takeWhile_eq_all_conv)

lemma add_card_interactive_lines:
  assumes "newline \<notin> set l1" "length l1 < 4095" "CHR 0x00 \<notin> set l1"
    and "newline \<notin> set l2" "length l2 < 4095" "CHR 0x00 \<notin> set l2"
    and "newline \<notin> set l3" "length l3 < 4095" "CHR 0x00 \<notin> set l3"
    and "trim_newline l1 \<noteq> []"
  shows "add_card_interactive s (l1 @ newline # l2 @ newline # l3 @ newline # rest) =
     (Added (next_ptr s),
      (snd (create_card (trim_newline l1) (trim_newline l2) (parse_tags (trim_newline l3)) s))
        \<lparr>queue := queue s @ [next_ptr s]\<rparr>,
      rest)"
proof -
  have nz: "CHR 0x00 \<noteq> newline" by (simp add: newline_def)
  have f1: "fgets LINEBUF (l1 @ newline # l2 @ newline # l3 @ newline # rest) = Some (l1 @ [newline], l2 @ newline # l3 @ newline # rest)"
    using assms by (intro fgets_line) (auto simp: LINEBUF_def)
  have f2: "fgets LINEBUF (l2 @ newline # l3 @ newline # rest) = Some (l2 @ [newline], l3 @ newline # rest)"
    using assms by (intro fgets_line) (auto simp: LINEBUF_def)
  have f3: "fgets LINEBUF (l3 @ newline # rest) = Some (l3 @ [newline], rest)"
    using assms by (intro fgets_line) (auto simp: LINEBUF_def)
  have c: "c_str (l1 @ [newline]) = l1 @ [newline]" "c_str (l2 @ [newline]) = l2 @ [newline]"
    "c_str (l3 @ [newline]) = l3 @ [newline]"
    using assms nz by (auto intro!: c_str_id)
  show ?thesis
    using assms(10)
    by (simp add: add_card_interactive_def f1 f2 f3 c Let_def create_card_def queue_enqueue_def
        split: prod.splits)
qed


section \<open>Adding a card\<close>

text \<open>
  C6 (as amended).  \<open>add_card_interactive\<close> cancels with "Empty question" exactly when
  the question line it read is empty once its trailing newline and carriage-return
  bytes are removed (no other white space is trimmed).  Whenever it does not add a card
  (empty question, or the input ends at one of the three prompts) the state is unchanged:
  no card, no tag entry, nothing enqueued.  When it adds a card, the card is the new head
  of the card list and the new tail of the queue.
\<close>

theorem add_card_interactive_empty_question:
  "(fst (add_card_interactive s inp) = EmptyQuestion \<longleftrightarrow>
      (\<exists>buf inp1. fgets LINEBUF inp = Some (buf, inp1) \<and> trim_newline (c_str buf) = []))
   \<and> (fst (add_card_interactive s inp) \<noteq> Added (next_ptr s) \<longrightarrow>
        fst (snd (add_card_interactive s inp)) = s)
   \<and> (fst (add_card_interactive s inp) = Added (next_ptr s) \<longrightarrow>
        cards_head (fst (snd (add_card_interactive s inp))) = next_ptr s # cards_head s \<and>
        queue (fst (snd (add_card_interactive s inp))) = queue s @ [next_ptr s])"
  by (auto simp: add_card_interactive_def create_card_def Let_def queue_enqueue_def
      split: option.splits prod.splits)

theorem add_card_interactive_empty_question_witness:
  "fst (add_card_interactive init_state [newline]) = EmptyQuestion \<and>
   fst (snd (add_card_interactive init_state [newline])) = init_state"
  using add_card_interactive_empty_question[of init_state "[newline]"]
  by (simp add: in1 c_str_nl trim_newline_def)

text \<open>
  C6 as stated fails: a question of three spaces is empty after trimming white space,
  and yet the card is created and enqueued with that question.
\<close>

theorem add_card_blank_question_counterexample:
  "trim_whitespace ''   '' = [] \<and>
   fst (add_card_interactive init_state (''   '' @ newline # ''A'' @ newline # ''t'' @ newline # [])) = Added 0 \<and>
   cards_head (fst (snd (add_card_interactive init_state (''   '' @ newline # ''A'' @ newline # ''t'' @ newline # [])))) = [0] \<and>
   queue (fst (snd (add_card_interactive init_state (''   '' @ newline # ''A'' @ newline # ''t'' @ newline # [])))) = [0] \<and>
   question (heap (fst (snd (add_card_interactive init_state (''   '' @ newline # ''A'' @ newline # ''t'' @ newline # [])))) 0) = ''   ''"
proof -
  have t: "trim_newline ''   '' = ''   ''"
    by (simp add: trim_newline_def newline_def)
  have w: "trim_whitespace ''   '' = []"
    by (simp add: trim_whitespace_def str_ltrim_def str_rtrim_def isspace_def)
  have "add_card_interactive init_state (''   '' @ newline # ''A'' @ newline # ''t'' @ newline # []) =
     (Added (next_ptr init_state),
      (snd (create_card (trim_newline ''   '') (trim_newline ''A'') (parse_tags (trim_newline ''t'')) init_state))
        \<lparr>queue := queue init_state @ [next_ptr init_state]\<rparr>, [])"
    by (rule add_card_interactive_lines) (simp_all add: newline_def t)
  then show ?thesis
    by (simp add: w t create_card_def init_state_def Let_def)
qed

section \<open>Evaluating the program on concrete inputs\<close>

lemma char_of_digit:
  "char_of (48::nat) = CHR ''0''" "char_of (49::nat) = CHR ''1''" "char_of (50::nat) = CHR ''2''"
  "char_of (51::nat) = CHR ''3''" "char_of (52::nat) = CHR ''4''" "char_of (53::nat) = CHR ''5''"
  "char_of (54::nat) = CHR ''6''" "char_of (55::nat) = CHR ''7''" "char_of (56::nat) = CHR ''8''"
  "char_of (57::nat) = CHR ''9''"
  by code_simp+

lemma fgets_chunk_numeral:
  "fgets_chunk (numeral n) [] = ([], [])"
  "fgets_chunk (numeral n) (c # cs) =
     (if c = newline then ([c], cs)
      else (case fgets_chunk (pred_numeral n) cs of (l, r) \<Rightarrow> (c # l, r)))"
  by (simp_all add: numeral_eq_Suc)

lemmas file_eval = load_text_def load_loop.simps fgets_def fgets_chunk_numeral LINEBUF_def
  newline_def c_str_def trim_newline_def load_line_def load_vars_init_def load_commit_def
  create_card_def clear_all_data_def queue_enqueue_def Let_def

lemma trim_newline_plain: "newline \<notin> set l \<Longrightarrow> CHR 0x0D \<notin> set l \<Longrightarrow> trim_newline l = l"
  by (cases l rule: rev_cases) (auto simp: trim_newline_def)

lemma parse_tags_Nil: "parse_tags [] = []"
  by (simp add: parse_tags_def trim_whitespace_def str_ltrim_def str_rtrim_def)

lemma big_file_loaded:
  "load_text big_file init_state =
     \<lparr>heap = (heap init_state)(0 := \<lparr>card_id = 1, question = ''a'', answer = ''b'', tags = [],
                interval = 1073741824, due_in = 0\<rparr>),
      next_ptr = 1, cards_head = [0], next_card_id = 2, tag_map = (\<lambda>_. []), queue = [0]\<rparr>"
  by (simp add: big_file_def card_block_def fmt_d_def dec_digits.simps char_of_digit
      file_eval atoi_def strtol10_def isspace_def isdigit_def to_int32_def parse_tags_Nil init_state_def)

lemma sample_lists:
  "queue (load_sample_cards init_state) = [2, 1, 0]"
  "cards_head (load_sample_cards init_state) = [2, 1, 0]"
  "next_ptr (load_sample_cards init_state) = 3"
  "next_card_id (load_sample_cards init_state) = 4"
  by (simp_all add: load_sample_cards_def create_card_def init_state_def Let_def queue_enqueue_def
      to_int32_def)

lemma sample_heap:
  "heap (load_sample_cards init_state) 2 =
     \<lparr>card_id = 3, question = ''What is enqueue operation?'',
      answer = ''Insert element at the tail of queue'', tags = [''queue'', ''srs''],
      interval = 1, due_in = 0\<rparr>"
  "heap (load_sample_cards init_state) (Suc 0) =
     \<lparr>card_id = 2, question = ''How to handle collisions in hash map?'',
      answer = ''Use chaining (linked lists) or open addressing'', tags = [''hashmap'', ''ds''],
      interval = 1, due_in = 0\<rparr>"
  "heap (load_sample_cards init_state) 0 =
     \<lparr>card_id = 1, question = ''What is FIFO in queues?'',
      answer = ''First In First Out'', tags = [''queue'', ''ds''],
      interval = 1, due_in = 0\<rparr>"
  by (simp_all add: load_sample_cards_def create_card_def init_state_def Let_def to_int32_def)

lemma fgets_small:
  "fgets 16 [newline, CHR ''y'', newline] = Some ([newline], [CHR ''y'', newline])"
  "fgets 16 [CHR ''y'', newline] = Some ([CHR ''y'', newline], [])"
  using fgets_line[of "[]" 16 "[CHR ''y'', newline]"] fgets_line[of "''y''" 16 "[]"]
  by (simp_all add: newline_def)

lemma c_str_small: "c_str [newline] = [newline]" "c_str [CHR ''y'', newline] = [CHR ''y'', newline]"
  by (simp_all add: c_str_def newline_def)

lemma trim_small: "trim_newline [newline] = []" "trim_newline [CHR ''y'', newline] = ''y''"
  by (simp_all add: trim_newline_def newline_def)

section \<open>The scan for the next due card\<close>

lemma scan_loop_first_due:
  assumes "queue s = pre @ c # post" and "\<forall>p\<in>set pre. 0 < due_in (heap s p)"
    and "\<not> 0 < due_in (heap s c)" and "distinct pre" and "k + length pre < n"
  shows "scan_loop n k s =
     (Some c, k + length pre,
      s\<lparr>heap := (\<lambda>x. if x \<in> set pre then (heap s x)\<lparr>due_in := due_in (heap s x) - 1\<rparr> else heap s x),
        queue := post @ pre\<rparr>)"
  using assms
proof (induction pre arbitrary: s k post)
  case Nil
  then show ?case
    by (simp add: scan_loop.simps[of n k s] queue_dequeue_def)
next
  case (Cons p pre)
  let ?s1 = "s\<lparr>heap := (heap s)(p := (heap s p)\<lparr>due_in := due_in (heap s p) - 1\<rparr>),
               queue := queue_enqueue (pre @ c # post) p\<rparr>"
  from Cons.prems have pc: "p \<noteq> c" by auto
  from Cons.prems have step: "scan_loop n k s = scan_loop n (Suc k) ?s1"
    by (simp add: scan_loop.simps[of n k s] queue_dequeue_def)
  have "scan_loop n (Suc k) ?s1 =
     (Some c, Suc k + length pre,
      ?s1\<lparr>heap := (\<lambda>x. if x \<in> set pre then (heap ?s1 x)\<lparr>due_in := due_in (heap ?s1 x) - 1\<rparr> else heap ?s1 x),
        queue := (post @ [p]) @ pre\<rparr>)"
    using Cons.prems pc by (intro Cons.IH) (auto simp: queue_enqueue_def)
  also have "\<dots> = (Some c, k + length (p # pre),
      s\<lparr>heap := (\<lambda>x. if x \<in> set (p # pre) then (heap s x)\<lparr>due_in := due_in (heap s x) - 1\<rparr> else heap s x),
        queue := post @ p # pre\<rparr>)"
    using Cons.prems by (auto simp: fun_eq_iff)
  finally show ?case using step by simp
qed

lemma scan_loop_head_due:
  "queue s = c # post \<Longrightarrow> \<not> 0 < due_in (heap s c) \<Longrightarrow> k < n \<Longrightarrow>
   scan_loop n k s = (Some c, k, s\<lparr>queue := post\<rparr>)"
  by (simp add: scan_loop.simps[of n k s] queue_dequeue_def)

lemma sample_scan:
  "scan_loop (queue_size (queue (load_sample_cards init_state))) 0 (load_sample_cards init_state) =
     (Some 2, 0, (load_sample_cards init_state)\<lparr>queue := [1, 0]\<rparr>)"
  by (rule scan_loop_head_due) (simp_all add: sample_lists sample_heap queue_size_def)

text \<open>
  C5.  When the queue is \<open>pre @ c # post\<close>, every card of \<open>pre\<close> still has to wait and
  \<open>c\<close> is due, one scan pass presents \<open>c\<close>: it has requeued exactly the cards of \<open>pre\<close>
  (\<open>scanned = length pre\<close>), each with \<open>due_in\<close> one less, in their order behind \<open>post\<close>,
  and has popped \<open>length pre + 1\<close> cards, which is at most the size of the queue.  So the
  first due card is never skipped within one scan.
\<close>

theorem scan_presents_first_due_card:
  assumes "queue s = pre @ c # post" and "\<forall>p\<in>set pre. 0 < due_in (heap s p)"
    and "due_in (heap s c) = 0" and "distinct (queue s)"
  shows "scan_loop (queue_size (queue s)) 0 s =
     (Some c, length pre,
      s\<lparr>heap := (\<lambda>x. if x \<in> set pre then (heap s x)\<lparr>due_in := due_in (heap s x) - 1\<rparr> else heap s x),
        queue := post @ pre\<rparr>)
    \<and> length pre + 1 \<le> queue_size (queue s)"
  using assms scan_loop_first_due[of s pre c post 0 "queue_size (queue s)"]
  by (simp add: queue_size_def)

theorem scan_presents_first_due_card_witness:
  "queue waiting_state = [2] @ 1 # [0] \<and> 0 < due_in (heap waiting_state 2) \<and>
   due_in (heap waiting_state 1) = 0 \<and> distinct (queue waiting_state) \<and>
   fst (scan_loop (queue_size (queue waiting_state)) 0 waiting_state) = Some 1 \<and>
   fst (snd (scan_loop (queue_size (queue waiting_state)) 0 waiting_state)) = 1 \<and>
   queue (snd (snd (scan_loop (queue_size (queue waiting_state)) 0 waiting_state))) = [0, 2] \<and>
   due_in (heap (snd (snd (scan_loop (queue_size (queue waiting_state)) 0 waiting_state))) 2) = 0"
proof -
  have q: "queue waiting_state = [2] @ 1 # [0]"
    by (simp add: waiting_state_def sample_lists)
  have d: "\<forall>p\<in>set [2]. 0 < due_in (heap waiting_state p)" "due_in (heap waiting_state 1) = 0"
    "distinct (queue waiting_state)"
    by (simp_all add: waiting_state_def sample_lists sample_heap)
  have w: "due_in (heap waiting_state 2) = 1"
    by (simp add: waiting_state_def)
  from scan_presents_first_due_card[OF q d] q d w show ?thesis
    by simp
qed

section \<open>Grading\<close>

lemma to_int32_double: "1 \<le> i \<Longrightarrow> i < 1073741824 \<Longrightarrow> to_int32 (i * 2) = i * 2"
  by (simp add: to_int32_def)

text \<open>
  C2 (as amended).  When a scan presents card \<open>c\<close> and the user types neither \<open>q\<close> at the
  question nor \<open>q\<close> as the verdict, the loop goes on from the graded state: the card is
  at the back of the queue; after a verdict starting with \<open>y\<close> or \<open>Y\<close> the new interval is
  twice the old one whenever the old one is between 1 and \<open>2 ^ 30 - 1\<close> (the product fits
  an \<open>int\<close>), it is at least 1 in every case, and \<open>due_in\<close> equals the new interval; after
  any other verdict interval and \<open>due_in\<close> are both 1.
\<close>

theorem grading_updates_schedule:
  assumes "scan_loop (queue_size (queue s)) 0 s = (Some c, k, s1)"
    and "fgets 16 inp = Some (cmd, inp1)" and "trim_newline (c_str cmd) \<noteq> ''q''"
    and "fgets 16 inp1 = Some (cmd2, inp2)" and "trim_newline (c_str cmd2) \<noteq> ''q''"
  shows "practice_while s inp = practice_while (grade (trim_newline (c_str cmd2)) c s1) inp2
    \<and> queue (grade (trim_newline (c_str cmd2)) c s1) = queue s1 @ [c]
    \<and> (said_yes (trim_newline (c_str cmd2)) \<longrightarrow>
         (1 \<le> interval (heap s1 c) \<and> interval (heap s1 c) < 1073741824 \<longrightarrow>
            interval (heap (grade (trim_newline (c_str cmd2)) c s1) c) = 2 * interval (heap s1 c)) \<and>
         1 \<le> interval (heap (grade (trim_newline (c_str cmd2)) c s1) c) \<and>
         due_in (heap (grade (trim_newline (c_str cmd2)) c s1) c) =
           interval (heap (grade (trim_newline (c_str cmd2)) c s1) c))
    \<and> (\<not> said_yes (trim_newline (c_str cmd2)) \<longrightarrow>
         interval (heap (grade (trim_newline (c_str cmd2)) c s1) c) = 1 \<and>
         due_in (heap (grade (trim_newline (c_str cmd2)) c s1) c) = 1)"
  using assms
  by (simp add: practice_while.simps[of s inp] grade_def grade_correct_def grade_incorrect_def
      Let_def queue_enqueue_def to_int32_double)

theorem grading_updates_schedule_witness:
  "scan_loop (queue_size (queue (load_sample_cards init_state))) 0 (load_sample_cards init_state) =
     (Some 2, 0, (load_sample_cards init_state)\<lparr>queue := [1, 0]\<rparr>) \<and>
   fgets 16 [newline, CHR ''y'', newline] = Some ([newline], [CHR ''y'', newline]) \<and>
   trim_newline (c_str [newline]) \<noteq> ''q'' \<and>
   fgets 16 [CHR ''y'', newline] = Some ([CHR ''y'', newline], []) \<and>
   trim_newline (c_str [CHR ''y'', newline]) \<noteq> ''q'' \<and>
   said_yes (trim_newline (c_str [CHR ''y'', newline])) \<and>
   interval (heap (load_sample_cards init_state) 2) = 1 \<and>
   interval (heap (grade ''y'' 2 ((load_sample_cards init_state)\<lparr>queue := [1, 0]\<rparr>)) 2) = 2 \<and>
   due_in (heap (grade ''y'' 2 ((load_sample_cards init_state)\<lparr>queue := [1, 0]\<rparr>)) 2) = 2 \<and>
   queue (grade ''y'' 2 ((load_sample_cards init_state)\<lparr>queue := [1, 0]\<rparr>)) = [1, 0, 2]"
proof -
  have h3: "trim_newline (c_str [newline]) \<noteq> ''q''"
    and h5: "trim_newline (c_str [CHR ''y'', newline]) \<noteq> ''q''"
    by (simp_all add: c_str_small trim_small)
  from grading_updates_schedule[OF sample_scan fgets_small(1) h3 fgets_small(2) h5]
  show ?thesis
    by (simp add: sample_scan fgets_small c_str_small trim_small said_yes_def sample_heap)
qed

text \<open>
  C2 as stated fails at the interval \<open>2 ^ 30\<close>: loading \<open>big_file\<close> gives a card with that
  interval, the scan presents it, and a correct answer sets the interval to 1 (the
  doubled value wraps to a negative number, which the source clamps), not to \<open>2 ^ 31\<close>.
\<close>

theorem grading_overflow_counterexample:
  "interval (heap (load_text big_file init_state) 0) = 1073741824 \<and>
   scan_loop (queue_size (queue (load_text big_file init_state))) 0 (load_text big_file init_state) =
     (Some 0, 0, (load_text big_file init_state)\<lparr>queue := []\<rparr>) \<and>
   said_yes ''y'' \<and>
   interval (heap (grade ''y'' 0 ((load_text big_file init_state)\<lparr>queue := []\<rparr>)) 0) = 1 \<and>
   due_in (heap (grade ''y'' 0 ((load_text big_file init_state)\<lparr>queue := []\<rparr>)) 0) = 1"
proof -
  have "scan_loop (queue_size (queue (load_text big_file init_state))) 0 (load_text big_file init_state) =
     (Some 0, 0, (load_text big_file init_state)\<lparr>queue := []\<rparr>)"
    by (rule scan_loop_head_due) (simp_all add: big_file_loaded queue_size_def)
  then show ?thesis
    by (simp add: big_file_loaded grade_def grade_correct_def said_yes_def to_int32_def Let_def)
qed

section \<open>End of input during practice\<close>

lemma scan_loop_frame:
  "scan_loop n k s = (r, k', s') \<Longrightarrow>
     cards_head s' = cards_head s \<and> tag_map s' = tag_map s \<and>
     next_ptr s' = next_ptr s \<and> next_card_id s' = next_card_id s \<and>
     mset (queue s') + (case r of None \<Rightarrow> {#} | Some c \<Rightarrow> {#c#}) = mset (queue s)"
proof (induction n k s rule: scan_loop.induct)
  case (1 n k s)
  show ?case
  proof (cases "k < n")
    case False
    with "1.prems" show ?thesis by (auto simp: scan_loop.simps[of n k s])
  next
    case True
    show ?thesis
    proof (cases "queue s")
      case Nil
      with True "1.prems" show ?thesis
        by (auto simp: scan_loop.simps[of n k s] queue_dequeue_def)
    next
      case (Cons c rest)
      have deq: "queue_dequeue (queue s) = Some (c, rest)"
        by (simp add: Cons queue_dequeue_def)
      show ?thesis
      proof (cases "0 < due_in (heap s c)")
        case False
        with True Cons "1.prems" show ?thesis
          by (auto simp: scan_loop.simps[of n k s] queue_dequeue_def)
      next
        case pos: True
        let ?s1 = "s\<lparr>heap := (heap s)(c := (heap s c)\<lparr>due_in := due_in (heap s c) - 1\<rparr>),
                      queue := queue_enqueue rest c\<rparr>"
        from True Cons pos "1.prems" have run: "scan_loop n (Suc k) ?s1 = (r, k', s')"
          by (simp add: scan_loop.simps[of n k s] queue_dequeue_def)
        from "1.IH"[OF True deq refl pos run] Cons show ?thesis
          by (simp add: queue_enqueue_def)
      qed
    qed
  qed
qed

lemma grade_frame:
  "cards_head (grade v c s) = cards_head s" "tag_map (grade v c s) = tag_map s"
  "next_ptr (grade v c s) = next_ptr s" "next_card_id (grade v c s) = next_card_id s"
  "queue (grade v c s) = queue s @ [c]"
  by (simp_all add: grade_def grade_correct_def grade_incorrect_def Let_def queue_enqueue_def)

lemma practice_while_input_ended:
  "practice_while s inp = (InputEnded c, s', inp') \<Longrightarrow>
     cards_head s' = cards_head s \<and> tag_map s' = tag_map s \<and>
     mset (queue s') + {#c#} = mset (queue s) \<and> inp' = []"
proof (induction s inp rule: practice_while.induct)
  case (1 s inp)
  obtain r k s1 where sc: "scan_loop (queue_size (queue s)) 0 s = (r, k, s1)"
    by (cases "scan_loop (queue_size (queue s)) 0 s") auto
  note fr = scan_loop_frame[OF sc]
  show ?case
  proof (cases r)
    case None
    with sc "1.prems" have ne: "queue_size (queue s1) \<noteq> 0" and run: "practice_while s1 inp = (InputEnded c, s', inp')"
      by (auto simp: practice_while.simps[of s inp] split: if_splits)
    from "1.IH"(1)[OF sc[symmetric] None refl ne run] fr None show ?thesis
      by simp
  next
    case (Some d)
    show ?thesis
    proof (cases "fgets 16 inp")
      case None
      with sc Some "1.prems" fr show ?thesis
        by (auto simp: practice_while.simps[of s inp] fgets_None_iff)
    next
      case f1: (Some a)
      obtain cmd inp1 where a: "a = (cmd, inp1)" by (cases a)
      show ?thesis
      proof (cases "trim_newline (c_str cmd) = ''q''")
        case True
        with sc Some f1 a "1.prems" show ?thesis
          by (simp add: practice_while.simps[of s inp])
      next
        case nq: False
        show ?thesis
        proof (cases "fgets 16 inp1")
          case None
          with sc Some f1 a nq "1.prems" fr show ?thesis
            by (auto simp: practice_while.simps[of s inp] fgets_None_iff)
        next
          case f2: (Some b)
          obtain cmd2 inp2 where b: "b = (cmd2, inp2)" by (cases b)
          show ?thesis
          proof (cases "trim_newline (c_str cmd2) = ''q''")
            case True
            with sc Some f1 a nq f2 b "1.prems" show ?thesis
              by (simp add: practice_while.simps[of s inp])
          next
            case nq2: False
            with sc Some f1 a nq f2 b "1.prems"
            have run: "practice_while (grade (trim_newline (c_str cmd2)) d s1) inp2 = (InputEnded c, s', inp')"
              by (simp add: practice_while.simps[of s inp])
            from "1.IH"(2)[OF sc[symmetric] Some refl f1 a[symmetric] nq f2 b[symmetric] nq2 run] fr Some
            show ?thesis
              by (simp add: grade_frame)
          qed
        qed
      qed
    qed
  qed
qed

lemma scan_loop_found_nonempty:
  "scan_loop n k s = (Some c, k', s') \<Longrightarrow> queue s \<noteq> []"
  using scan_loop_frame[of n k s "Some c" k' s'] by auto

text \<open>
  C10.  When a scan presents card \<open>c\<close> and \<open>fgets\<close> returns NULL at the question prompt,
  or at the verdict prompt after an answer other than \<open>q\<close>, \<open>practice_loop\<close> returns at
  once in the state the scan left, without putting \<open>c\<close> back.  And whenever
  \<open>practice_loop\<close> ends this way, in whichever round, from a queue of distinct cards of
  the card list: the card list and the tag map are unchanged and still hold \<open>c\<close>, and the
  queue has lost exactly \<open>c\<close>.
\<close>

theorem practice_input_end_drops_card:
  "(\<forall>c k s1. scan_loop (queue_size (queue s)) 0 s = (Some c, k, s1) \<and>
       (fgets 16 inp = None \<or>
        (\<exists>cmd inp1. fgets 16 inp = Some (cmd, inp1) \<and> trim_newline (c_str cmd) \<noteq> ''q'' \<and>
           fgets 16 inp1 = None))
     \<longrightarrow> practice_loop s inp = (InputEnded c, s1, []))
   \<and> (\<forall>c s' inp'. practice_loop s inp = (InputEnded c, s', inp') \<and>
         distinct (queue s) \<and> set (queue s) \<subseteq> set (cards_head s)
     \<longrightarrow> c \<in> set (cards_head s') \<and> c \<notin> set (queue s') \<and>
         mset (queue s') + {#c#} = mset (queue s) \<and>
         cards_head s' = cards_head s \<and> tag_map s' = tag_map s \<and> inp' = [])"
proof (rule conjI)
  show "\<forall>c k s1. scan_loop (queue_size (queue s)) 0 s = (Some c, k, s1) \<and>
       (fgets 16 inp = None \<or>
        (\<exists>cmd inp1. fgets 16 inp = Some (cmd, inp1) \<and> trim_newline (c_str cmd) \<noteq> ''q'' \<and>
           fgets 16 inp1 = None))
     \<longrightarrow> practice_loop s inp = (InputEnded c, s1, [])"
  proof (intro allI impI)
    fix c k s1
    assume h: "scan_loop (queue_size (queue s)) 0 s = (Some c, k, s1) \<and>
       (fgets 16 inp = None \<or>
        (\<exists>cmd inp1. fgets 16 inp = Some (cmd, inp1) \<and> trim_newline (c_str cmd) \<noteq> ''q'' \<and>
           fgets 16 inp1 = None))"
    then have ne: "queue s \<noteq> []"
      by (auto dest: scan_loop_found_nonempty)
    from h have "practice_while s inp = (InputEnded c, s1, [])"
      by (auto simp: practice_while.simps[of s inp] fgets_None_iff)
    with ne show "practice_loop s inp = (InputEnded c, s1, [])"
      by (simp add: practice_loop_def queue_size_def)
  qed
next
  show "\<forall>c s' inp'. practice_loop s inp = (InputEnded c, s', inp') \<and>
         distinct (queue s) \<and> set (queue s) \<subseteq> set (cards_head s)
     \<longrightarrow> c \<in> set (cards_head s') \<and> c \<notin> set (queue s') \<and>
         mset (queue s') + {#c#} = mset (queue s) \<and>
         cards_head s' = cards_head s \<and> tag_map s' = tag_map s \<and> inp' = []"
  proof (intro allI impI)
    fix c s' inp'
    assume h: "practice_loop s inp = (InputEnded c, s', inp') \<and>
         distinct (queue s) \<and> set (queue s) \<subseteq> set (cards_head s)"
    then have "practice_while s inp = (InputEnded c, s', inp')"
      by (auto simp: practice_loop_def split: if_splits)
    from practice_while_input_ended[OF this]
    have fr: "cards_head s' = cards_head s" "tag_map s' = tag_map s"
      "mset (queue s') + {#c#} = mset (queue s)" "inp' = []"
      by auto
    have eq: "mset (queue s' @ [c]) = mset (queue s)"
      using fr(3) by simp
    from eq h have "distinct (queue s' @ [c])"
      using mset_eq_imp_distinct_iff by blast
    then have nin: "c \<notin> set (queue s')"
      by simp
    from eq have "set (queue s' @ [c]) = set (queue s)"
      by (rule mset_eq_setD)
    then have cin: "c \<in> set (queue s)"
      by auto
    with nin h fr
    show "c \<in> set (cards_head s') \<and> c \<notin> set (queue s') \<and>
         mset (queue s') + {#c#} = mset (queue s) \<and>
         cards_head s' = cards_head s \<and> tag_map s' = tag_map s \<and> inp' = []"
      by auto
  qed
qed

theorem practice_input_end_drops_card_witness:
  "practice_loop (load_sample_cards init_state) [] =
     (InputEnded 2, (load_sample_cards init_state)\<lparr>queue := [1, 0]\<rparr>, []) \<and>
   distinct (queue (load_sample_cards init_state)) \<and>
   set (queue (load_sample_cards init_state)) \<subseteq> set (cards_head (load_sample_cards init_state)) \<and>
   2 \<in> set (cards_head ((load_sample_cards init_state)\<lparr>queue := [1, 0]\<rparr>)) \<and>
   2 \<notin> set (queue ((load_sample_cards init_state)\<lparr>queue := [1, 0]\<rparr>))"
proof -
  have a: "practice_loop (load_sample_cards init_state) [] =
     (InputEnded 2, (load_sample_cards init_state)\<lparr>queue := [1, 0]\<rparr>, [])"
    using practice_input_end_drops_card[of "load_sample_cards init_state" "[]"] sample_scan
    by simp
  have b: "distinct (queue (load_sample_cards init_state))"
    "set (queue (load_sample_cards init_state)) \<subseteq> set (cards_head (load_sample_cards init_state))"
    by (simp_all add: sample_lists)
  from practice_input_end_drops_card[of "load_sample_cards init_state" "[]"] a b
  show ?thesis by simp
qed

section \<open>Range of the scheduling fields\<close>

lemma sched_ok_init: "sched_ok init_state"
  by (simp add: sched_ok_def init_state_def)

lemma sched_ok_create_card: "sched_ok s \<Longrightarrow> sched_ok (snd (create_card q a tgs s))"
  by (simp add: sched_ok_def create_card_def Let_def)

lemma sched_ok_queue [simp]: "sched_ok (s\<lparr>queue := q\<rparr>) = sched_ok s"
  by (simp add: sched_ok_def)

lemma sched_ok_next_card_id [simp]: "sched_ok (s\<lparr>next_card_id := i\<rparr>) = sched_ok s"
  by (simp add: sched_ok_def)

lemma sched_ok_scan_loop:
  "scan_loop n k s = (r, k', s') \<Longrightarrow> sched_ok s \<Longrightarrow> sched_ok s'"
proof (induction n k s rule: scan_loop.induct)
  case (1 n k s)
  show ?case
  proof (cases "k < n")
    case False
    with "1.prems" show ?thesis by (auto simp: scan_loop.simps[of n k s])
  next
    case True
    show ?thesis
    proof (cases "queue s")
      case Nil
      with True "1.prems" show ?thesis
        by (auto simp: scan_loop.simps[of n k s] queue_dequeue_def)
    next
      case (Cons c rest)
      have deq: "queue_dequeue (queue s) = Some (c, rest)"
        by (simp add: Cons queue_dequeue_def)
      show ?thesis
      proof (cases "0 < due_in (heap s c)")
        case False
        with True Cons "1.prems" show ?thesis
          by (auto simp: scan_loop.simps[of n k s] queue_dequeue_def)
      next
        case pos: True
        let ?s1 = "s\<lparr>heap := (heap s)(c := (heap s c)\<lparr>due_in := due_in (heap s c) - 1\<rparr>),
                      queue := queue_enqueue rest c\<rparr>"
        from True Cons pos "1.prems" have run: "scan_loop n (Suc k) ?s1 = (r, k', s')"
          by (simp add: scan_loop.simps[of n k s] queue_dequeue_def)
        from pos "1.prems"(2) have "sched_ok ?s1"
          by (auto simp: sched_ok_def)
        with "1.IH"[OF True deq refl pos run] show ?thesis .
      qed
    qed
  qed
qed

lemma sched_ok_grade: "sched_ok s \<Longrightarrow> sched_ok (grade v c s)"
  by (auto simp: sched_ok_def grade_def grade_correct_def grade_incorrect_def Let_def)

lemma sched_ok_practice_while:
  "practice_while s inp = (x, s', inp') \<Longrightarrow> sched_ok s \<Longrightarrow> sched_ok s'"
proof (induction s inp rule: practice_while.induct)
  case (1 s inp)
  obtain r k s1 where sc: "scan_loop (queue_size (queue s)) 0 s = (r, k, s1)"
    by (cases "scan_loop (queue_size (queue s)) 0 s") auto
  from sched_ok_scan_loop[OF sc "1.prems"(2)] have ok1: "sched_ok s1" .
  show ?case
  proof (cases r)
    case None
    show ?thesis
    proof (cases "queue_size (queue s1) = 0")
      case True
      with sc None "1.prems" ok1 show ?thesis
        by (auto simp: practice_while.simps[of s inp])
    next
      case ne: False
      with sc None "1.prems" have run: "practice_while s1 inp = (x, s', inp')"
        by (auto simp: practice_while.simps[of s inp])
      from "1.IH"(1)[OF sc[symmetric] None refl ne run ok1] show ?thesis .
    qed
  next
    case (Some d)
    show ?thesis
    proof (cases "fgets 16 inp")
      case None
      with sc Some "1.prems" ok1 show ?thesis
        by (auto simp: practice_while.simps[of s inp])
    next
      case f1: (Some a)
      obtain cmd inp1 where a: "a = (cmd, inp1)" by (cases a)
      show ?thesis
      proof (cases "trim_newline (c_str cmd) = ''q''")
        case True
        with sc Some f1 a "1.prems" ok1 show ?thesis
          by (auto simp: practice_while.simps[of s inp])
      next
        case nq: False
        show ?thesis
        proof (cases "fgets 16 inp1")
          case None
          with sc Some f1 a nq "1.prems" ok1 show ?thesis
            by (auto simp: practice_while.simps[of s inp])
        next
          case f2: (Some b)
          obtain cmd2 inp2 where b: "b = (cmd2, inp2)" by (cases b)
          show ?thesis
          proof (cases "trim_newline (c_str cmd2) = ''q''")
            case True
            with sc Some f1 a nq f2 b "1.prems" ok1 show ?thesis
              by (auto simp: practice_while.simps[of s inp])
          next
            case nq2: False
            with sc Some f1 a nq f2 b "1.prems"
            have run: "practice_while (grade (trim_newline (c_str cmd2)) d s1) inp2 = (x, s', inp')"
              by (simp add: practice_while.simps[of s inp])
            from "1.IH"(2)[OF sc[symmetric] Some refl f1 a[symmetric] nq f2 b[symmetric] nq2 run
                sched_ok_grade[OF ok1]]
            show ?thesis .
          qed
        qed
      qed
    qed
  qed
qed

lemma sched_ok_practice_loop:
  "practice_loop s inp = (x, s', inp') \<Longrightarrow> sched_ok s \<Longrightarrow> sched_ok s'"
  by (auto simp: practice_loop_def split: if_splits dest: sched_ok_practice_while)

lemma sched_ok_load_commit: "sched_ok s \<Longrightarrow> sched_ok (load_commit v s)"
  by (auto simp: sched_ok_def load_commit_def create_card_def Let_def split: option.splits)

lemma sched_ok_load_line: "load_line l v s = (v', s') \<Longrightarrow> sched_ok s \<Longrightarrow> sched_ok s'"
  by (auto simp: load_line_def sched_ok_load_commit split: if_splits)

lemma sched_ok_load_loop: "load_loop f v s = (v', s') \<Longrightarrow> sched_ok s \<Longrightarrow> sched_ok s'"
proof (induction f v s rule: load_loop.induct)
  case (1 f v s)
  show ?case
  proof (cases "fgets LINEBUF f")
    case None
    with "1.prems" show ?thesis by (simp add: load_loop.simps[of f])
  next
    case (Some a)
    obtain line f' where a: "a = (line, f')" by (cases a)
    obtain v1 s1 where ll: "load_line (trim_newline (c_str line)) v s = (v1, s1)"
      by (cases "load_line (trim_newline (c_str line)) v s")
    from Some a ll "1.prems" have run: "load_loop f' v1 s1 = (v', s')"
      by (simp add: load_loop.simps[of f])
    from "1.IH"[OF Some a[symmetric] ll[symmetric] run sched_ok_load_line[OF ll "1.prems"(2)]]
    show ?thesis .
  qed
qed

lemma sched_ok_load_text: "sched_ok (load_text f s)"
proof -
  have ok: "sched_ok (clear_all_data s)"
    by (simp add: sched_ok_def clear_all_data_def)
  obtain v s' where ll: "load_loop f load_vars_init (clear_all_data s) = (v, s')"
    by (cases "load_loop f load_vars_init (clear_all_data s)")
  from sched_ok_load_loop[OF ll ok] ll show ?thesis
    by (simp add: load_text_def sched_ok_load_commit)
qed

lemma sched_ok_load_cards_from_file: "sched_ok s \<Longrightarrow> sched_ok (load_cards_from_file fn fs s)"
  by (simp add: load_cards_from_file_def sched_ok_load_text split: option.splits)

lemma sched_ok_add_card_interactive:
  "add_card_interactive s inp = (r, s', inp') \<Longrightarrow> sched_ok s \<Longrightarrow> sched_ok s'"
  by (auto simp: add_card_interactive_def sched_ok_def create_card_def Let_def
      split: option.splits if_splits prod.splits)

lemma sched_ok_delete_card: "sched_ok s \<Longrightarrow> sched_ok (delete_card c s)"
  by (auto simp: sched_ok_def delete_card_def dest: notin_set_remove1)

lemma sched_ok_remove_card_interactive:
  "remove_card_interactive s inp = (r, s', inp') \<Longrightarrow> sched_ok s \<Longrightarrow> sched_ok s'"
  by (auto simp: remove_card_interactive_def Let_def sched_ok_delete_card
      split: option.splits)

lemma sched_ok_sample: "sched_ok (load_sample_cards init_state)"
  by (simp add: sched_ok_def sample_lists sample_heap)

lemma reachable_sched_ok: "reachable s \<Longrightarrow> sched_ok s"
  by (induction rule: reachable.induct)
    (auto intro: sched_ok_sample sched_ok_practice_loop sched_ok_add_card_interactive
      sched_ok_remove_card_interactive sched_ok_load_cards_from_file)

text \<open>
  C8.  In every state \<open>main\<close> can reach, every card of the card list has
  \<open>interval \<ge> 1\<close> and \<open>due_in \<ge> 0\<close>.  And each operation keeps it so, from any state
  where it holds: creating a card (which starts with interval 1 and \<open>due_in\<close> 0), grading
  with any verdict, a scan with its decrements, a whole practice session, committing a
  loaded record and loading a file.
\<close>

theorem schedule_fields_in_range:
  "(reachable s \<longrightarrow> sched_ok s) \<and>
   (sched_ok s \<longrightarrow>
      sched_ok (snd (create_card q a tgs s)) \<and>
      interval (heap (snd (create_card q a tgs s)) (fst (create_card q a tgs s))) = 1 \<and>
      due_in (heap (snd (create_card q a tgs s)) (fst (create_card q a tgs s))) = 0 \<and>
      sched_ok (grade v c s) \<and>
      sched_ok (snd (snd (scan_loop n k s))) \<and>
      sched_ok (fst (snd (practice_loop s inp))) \<and>
      sched_ok (load_commit lv s) \<and>
      sched_ok (load_cards_from_file fn fs s))"
proof -
  have "sched_ok s \<Longrightarrow> sched_ok (snd (snd (scan_loop n k s)))"
    using sched_ok_scan_loop[of n k s] by (cases "scan_loop n k s") auto
  moreover have "sched_ok s \<Longrightarrow> sched_ok (fst (snd (practice_loop s inp)))"
    using sched_ok_practice_loop[of s inp] by (cases "practice_loop s inp") auto
  ultimately show ?thesis
    by (auto simp: reachable_sched_ok sched_ok_create_card sched_ok_grade sched_ok_load_commit
        sched_ok_load_cards_from_file)
      (simp_all add: create_card_def Let_def)
qed

theorem schedule_fields_in_range_witness:
  "reachable (load_sample_cards init_state) \<and>
   1 \<le> interval (heap (load_sample_cards init_state) 2) \<and>
   0 \<le> due_in (heap (load_sample_cards init_state) 2) \<and>
   1 \<le> interval (heap (grade ''y'' 2 (load_sample_cards init_state)) 2) \<and>
   0 \<le> due_in (heap (grade ''y'' 2 (load_sample_cards init_state)) 2)"
proof -
  have r: "reachable (load_sample_cards init_state)" by (rule reachable.start)
  from schedule_fields_in_range[of "load_sample_cards init_state" "[]" "[]" "[]" "''y''" 2 0 0 "[]" load_vars_init "[]" Map.empty] r
  have "sched_ok (load_sample_cards init_state)" "sched_ok (grade ''y'' 2 (load_sample_cards init_state))"
    by auto
  with r show ?thesis
    by (simp add: sched_ok_def sample_lists grade_frame)
qed

section \<open>Draining the queue and finding a card\<close>

lemma drain_eq: "drain q = q"
  by (induction q) (simp_all add: drain.simps[of "[]"] drain.simps[of "_ # _"] queue_dequeue_def)

lemma find_card_by_id_in: "find_card_by_id s i = Some c \<Longrightarrow> c \<in> set (cards_head s)"
  by (auto simp: find_card_by_id_def find_Some_iff)

section \<open>Consistency of the tag map\<close>

lemma find_chain_update:
  assumes "\<And>e. tag e = t \<Longrightarrow> tag (f e) = t"
  shows "find (\<lambda>e. tag e = t') (chain_update t f ch) =
     (if t' = t then map_option f (find (\<lambda>e. tag e = t) ch) else find (\<lambda>e. tag e = t') ch)"
  using assms by (induction ch) auto

lemma map_tag_chain_update:
  assumes "\<And>e. tag e = t \<Longrightarrow> tag (f e) = t"
  shows "map tag (chain_update t f ch) = map tag ch"
  using assms by (induction ch) auto

lemma set_chain_update:
  "e \<in> set (chain_update t f ch) \<Longrightarrow> e \<in> set ch \<or> (\<exists>e0\<in>set ch. tag e0 = t \<and> e = f e0)"
  by (induction ch) (auto split: if_splits)

lemma set_chain_unlink: "e \<in> set (chain_unlink t ch) \<Longrightarrow> e \<in> set ch"
  by (induction ch) (auto split: if_splits)

lemma distinct_chain_unlink: "distinct (map tag ch) \<Longrightarrow> distinct (map tag (chain_unlink t ch))"
  by (induction ch) (auto dest: set_chain_unlink)

lemma find_chain_unlink:
  "distinct (map tag ch) \<Longrightarrow>
   find (\<lambda>e. tag e = t') (chain_unlink t ch) =
     (if t' = t then None else find (\<lambda>e. tag e = t') ch)"
  by (induction ch) (auto simp: find_None_iff image_iff)

lemma chain_ok_update:
  assumes "chain_ok h ch" and "\<And>e. tag e = t \<Longrightarrow> tag (f e) = t \<and> cards (f e) \<noteq> []"
  shows "chain_ok h (chain_update t f ch)"
  using assms unfolding chain_ok_def
  by (auto simp: map_tag_chain_update dest!: set_chain_update)

lemma chain_ok_unlink: "chain_ok h ch \<Longrightarrow> chain_ok h (chain_unlink t ch)"
  unfolding chain_ok_def by (auto simp: distinct_chain_unlink dest: set_chain_unlink)

lemma tag_cards_add:
  "tag_cards (tag_add_card t c tm) t' = (if t' = t then c # tag_cards tm t else tag_cards tm t')"
  by (auto simp: tag_cards_def tag_find_def tag_add_card_def Let_def find_chain_update
      split: option.splits)

lemma chain_ok_add:
  assumes "\<forall>h. chain_ok h (tm h)"
  shows "chain_ok h (tag_add_card t c tm h)"
proof (cases "find (\<lambda>e. tag e = t) (tm (slot t))")
  case None
  then have "t \<notin> tag ` set (tm (slot t))"
    by (auto simp: find_None_iff)
  with assms None show ?thesis
    by (auto simp: tag_add_card_def Let_def chain_ok_def)
next
  case (Some e)
  with assms show ?thesis
    by (auto simp: tag_add_card_def Let_def intro!: chain_ok_update)
qed

lemma tag_find_tag: "tag_find tm t = Some e \<Longrightarrow> tag e = t"
  by (auto simp: tag_find_def dest: find_Some_iff[THEN iffD1])

lemma tag_cards_remove_step:
  assumes "\<forall>h. chain_ok h (tm h)"
  shows "tag_cards (tag_remove_card_step c t tm) t' =
     (if t' = t then remove1 c (tag_cards tm t) else tag_cards tm t')"
proof (cases "tag_find tm t")
  case None
  then show ?thesis
    by (simp add: tag_remove_card_step_def tag_cards_def)
next
  case (Some e)
  then have te: "tag e = t" by (rule tag_find_tag)
  from assms have d: "distinct (map tag (tm (slot t)))"
    by (simp add: chain_ok_def)
  from Some have f: "find (\<lambda>e. tag e = t) (tm (slot t)) = Some e"
    by (simp add: tag_find_def)
  show ?thesis
    using Some te d f
    by (auto simp: tag_remove_card_step_def tag_cards_def tag_find_def Let_def
        tag_remove_card_from_tag_entry_def find_chain_update find_chain_unlink
        split: option.splits)
qed

lemma chain_ok_remove_step:
  assumes "\<forall>h. chain_ok h (tm h)"
  shows "chain_ok h (tag_remove_card_step c t tm h)"
proof (cases "tag_find tm t")
  case None
  with assms show ?thesis
    by (simp add: tag_remove_card_step_def)
next
  case (Some e)
  then have te: "tag e = t" by (rule tag_find_tag)
  with assms Some show ?thesis
    by (auto simp: tag_remove_card_step_def Let_def tag_remove_card_from_tag_entry_def
        intro!: chain_ok_update chain_ok_unlink)
qed

lemma tag_cards_fold_add:
  "tag_cards (fold (\<lambda>t. tag_add_card t c) tgs tm) t = replicate (count_list tgs t) c @ tag_cards tm t"
  by (induction tgs arbitrary: tm) (auto simp: tag_cards_add replicate_app_Cons_same)

lemma chain_ok_fold_add:
  "\<forall>h. chain_ok h (tm h) \<Longrightarrow> \<forall>h. chain_ok h (fold (\<lambda>t. tag_add_card t c) tgs tm h)"
  by (induction tgs arbitrary: tm) (simp_all add: chain_ok_add)

lemma count_list_replicate: "count_list (replicate n x) y = (if y = x then n else 0)"
  by (induction n) auto

lemma count_list_remove1:
  "count_list (remove1 c xs) d = (if d = c then count_list xs c - 1 else count_list xs d)"
  by (induction xs) auto

lemma chain_ok_fold_remove:
  "\<forall>h. chain_ok h (tm h) \<Longrightarrow> \<forall>h. chain_ok h (fold (tag_remove_card_step c) ts tm h)"
  by (induction ts arbitrary: tm) (simp_all add: chain_ok_remove_step)

lemma count_fold_remove:
  "\<forall>h. chain_ok h (tm h) \<Longrightarrow>
   count_list (tag_cards (fold (tag_remove_card_step c) ts tm) t) d =
     (if d = c then count_list (tag_cards tm t) c - count_list ts t
      else count_list (tag_cards tm t) d)"
proof (induction ts arbitrary: tm)
  case Nil
  then show ?case by simp
next
  case (Cons a ts)
  have ok: "\<forall>h. chain_ok h (tag_remove_card_step c a tm h)"
    using Cons.prems by (simp add: chain_ok_remove_step)
  show ?case
    using Cons.IH[OF ok] Cons.prems
    by (simp add: tag_cards_remove_step count_list_remove1)
qed

lemma tag_ok_queue [simp]: "tag_ok (s\<lparr>queue := q\<rparr>) = tag_ok s"
  by (simp add: tag_ok_def)

lemma tag_ok_next_card_id [simp]: "tag_ok (s\<lparr>next_card_id := i\<rparr>) = tag_ok s"
  by (simp add: tag_ok_def)

lemma tag_ok_heap: "\<forall>x. tags (h x) = tags (heap s x) \<Longrightarrow> tag_ok (s\<lparr>heap := h\<rparr>) = tag_ok s"
  by (simp add: tag_ok_def)

lemma tag_ok_init: "tag_ok init_state"
  by (simp add: tag_ok_def init_state_def chain_ok_def tag_cards_def tag_find_def)

lemma tag_ok_clear: "tag_ok (clear_all_data s)"
  by (simp add: tag_ok_def clear_all_data_def chain_ok_def tag_cards_def tag_find_def)

lemma tag_ok_create_card:
  assumes "tag_ok s"
  shows "tag_ok (snd (create_card q a tgs s))"
proof -
  from assms have fresh: "next_ptr s \<notin> set (cards_head s)"
    by (auto simp: tag_ok_def)
  with assms have zero: "count_list (tag_cards (tag_map s) t) (next_ptr s) = 0" for t
    by (simp add: tag_ok_def)
  from assms have ch: "\<forall>h. chain_ok h (tag_map s h)"
    by (simp add: tag_ok_def)
  show ?thesis
    using assms fresh zero chain_ok_fold_add[OF ch]
    by (auto simp: tag_ok_def create_card_def Let_def tag_cards_fold_add count_list_replicate)
qed

lemma tag_ok_delete_card:
  assumes "tag_ok s" and "c \<in> set (cards_head s)"
  shows "tag_ok (delete_card c s)"
proof -
  from assms have ch: "\<forall>h. chain_ok h (tag_map s h)"
    by (simp add: tag_ok_def)
  from assms have d: "distinct (cards_head s)"
    by (simp add: tag_ok_def)
  show ?thesis
    using assms chain_ok_fold_remove[OF ch] d
    by (auto simp: tag_ok_def delete_card_def tag_remove_card_def count_fold_remove[OF ch]
        dest: notin_set_remove1)
qed

lemma scan_loop_preserves:
  assumes dec: "\<And>s c q. P s \<Longrightarrow> 0 < due_in (heap s c) \<Longrightarrow>
      P (s\<lparr>heap := (heap s)(c := (heap s c)\<lparr>due_in := due_in (heap s c) - 1\<rparr>), queue := q\<rparr>)"
    and que: "\<And>s q. P s \<Longrightarrow> P (s\<lparr>queue := q\<rparr>)"
  shows "scan_loop n k s = (r, k', s') \<Longrightarrow> P s \<Longrightarrow> P s'"
proof (induction n k s rule: scan_loop.induct)
  case (1 n k s)
  show ?case
  proof (cases "k < n")
    case False
    with "1.prems" show ?thesis by (auto simp: scan_loop.simps[of n k s])
  next
    case True
    show ?thesis
    proof (cases "queue s")
      case Nil
      with True "1.prems" show ?thesis
        by (auto simp: scan_loop.simps[of n k s] queue_dequeue_def)
    next
      case (Cons c rest)
      have deq: "queue_dequeue (queue s) = Some (c, rest)"
        by (simp add: Cons queue_dequeue_def)
      show ?thesis
      proof (cases "0 < due_in (heap s c)")
        case False
        with True Cons "1.prems" que[of s rest] show ?thesis
          by (auto simp: scan_loop.simps[of n k s] queue_dequeue_def)
      next
        case pos: True
        let ?s1 = "s\<lparr>heap := (heap s)(c := (heap s c)\<lparr>due_in := due_in (heap s c) - 1\<rparr>),
                      queue := queue_enqueue rest c\<rparr>"
        from True Cons pos "1.prems" have run: "scan_loop n (Suc k) ?s1 = (r, k', s')"
          by (simp add: scan_loop.simps[of n k s] queue_dequeue_def)
        from "1.IH"[OF True deq refl pos run dec[OF "1.prems"(2) pos]] show ?thesis .
      qed
    qed
  qed
qed

lemma practice_while_preserves:
  assumes scan: "\<And>n k s r k' s'. scan_loop n k s = (r, k', s') \<Longrightarrow> P s \<Longrightarrow> P s'"
    and grd: "\<And>v c s. P s \<Longrightarrow> P (grade v c s)"
    and que: "\<And>s q. P s \<Longrightarrow> P (s\<lparr>queue := q\<rparr>)"
  shows "practice_while s inp = (x, s', inp') \<Longrightarrow> P s \<Longrightarrow> P s'"
proof (induction s inp rule: practice_while.induct)
  case (1 s inp)
  obtain r k s1 where sc: "scan_loop (queue_size (queue s)) 0 s = (r, k, s1)"
    by (cases "scan_loop (queue_size (queue s)) 0 s") auto
  from scan[OF sc "1.prems"(2)] have ok1: "P s1" .
  show ?case
  proof (cases r)
    case None
    show ?thesis
    proof (cases "queue_size (queue s1) = 0")
      case True
      with sc None "1.prems" ok1 show ?thesis
        by (auto simp: practice_while.simps[of s inp])
    next
      case ne: False
      with sc None "1.prems" have run: "practice_while s1 inp = (x, s', inp')"
        by (auto simp: practice_while.simps[of s inp])
      from "1.IH"(1)[OF sc[symmetric] None refl ne run ok1] show ?thesis .
    qed
  next
    case (Some d)
    show ?thesis
    proof (cases "fgets 16 inp")
      case None
      with sc Some "1.prems" ok1 show ?thesis
        by (auto simp: practice_while.simps[of s inp])
    next
      case f1: (Some a)
      obtain cmd inp1 where a: "a = (cmd, inp1)" by (cases a)
      show ?thesis
      proof (cases "trim_newline (c_str cmd) = ''q''")
        case True
        with sc Some f1 a "1.prems" que[OF ok1] show ?thesis
          by (auto simp: practice_while.simps[of s inp])
      next
        case nq: False
        show ?thesis
        proof (cases "fgets 16 inp1")
          case None
          with sc Some f1 a nq "1.prems" ok1 show ?thesis
            by (auto simp: practice_while.simps[of s inp])
        next
          case f2: (Some b)
          obtain cmd2 inp2 where b: "b = (cmd2, inp2)" by (cases b)
          show ?thesis
          proof (cases "trim_newline (c_str cmd2) = ''q''")
            case True
            with sc Some f1 a nq f2 b "1.prems" que[OF ok1] show ?thesis
              by (auto simp: practice_while.simps[of s inp])
          next
            case nq2: False
            with sc Some f1 a nq f2 b "1.prems"
            have run: "practice_while (grade (trim_newline (c_str cmd2)) d s1) inp2 = (x, s', inp')"
              by (simp add: practice_while.simps[of s inp])
            from "1.IH"(2)[OF sc[symmetric] Some refl f1 a[symmetric] nq f2 b[symmetric] nq2 run
                grd[OF ok1]]
            show ?thesis .
          qed
        qed
      qed
    qed
  qed
qed

lemma load_loop_preserves:
  assumes com: "\<And>v s. P s \<Longrightarrow> P (load_commit v s)"
  shows "load_loop f v s = (v', s') \<Longrightarrow> P s \<Longrightarrow> P s'"
proof (induction f v s rule: load_loop.induct)
  case (1 f v s)
  show ?case
  proof (cases "fgets LINEBUF f")
    case None
    with "1.prems" show ?thesis by (simp add: load_loop.simps[of f])
  next
    case (Some a)
    obtain line f' where a: "a = (line, f')" by (cases a)
    obtain v1 s1 where ll: "load_line (trim_newline (c_str line)) v s = (v1, s1)"
      by (cases "load_line (trim_newline (c_str line)) v s")
    from ll "1.prems"(2) have ok1: "P s1"
      by (auto simp: load_line_def com split: if_splits)
    from Some a ll "1.prems" have run: "load_loop f' v1 s1 = (v', s')"
      by (simp add: load_loop.simps[of f])
    from "1.IH"[OF Some a[symmetric] ll[symmetric] run ok1]
    show ?thesis .
  qed
qed

lemma tag_ok_scan_loop: "scan_loop n k s = (r, k', s') \<Longrightarrow> tag_ok s \<Longrightarrow> tag_ok s'"
  by (erule scan_loop_preserves[rotated 2]) (simp_all add: tag_ok_def)

lemma tag_ok_grade: "tag_ok s \<Longrightarrow> tag_ok (grade v c s)"
  by (simp add: tag_ok_def grade_def grade_correct_def grade_incorrect_def Let_def)

lemma tag_ok_practice_loop:
  "practice_loop s inp = (x, s', inp') \<Longrightarrow> tag_ok s \<Longrightarrow> tag_ok s'"
  by (auto simp: practice_loop_def split: if_splits
      elim!: practice_while_preserves[where P = tag_ok, rotated 3]
      intro: tag_ok_scan_loop tag_ok_grade)

lemma tag_ok_load_commit: "tag_ok s \<Longrightarrow> tag_ok (load_commit v s)"
proof -
  assume ok: "tag_ok s"
  show ?thesis
  proof (cases "qtext v")
    case None
    with ok show ?thesis by (simp add: load_commit_def)
  next
    case q: (Some q)
    show ?thesis
    proof (cases "atext v")
      case None
      with ok q show ?thesis by (simp add: load_commit_def)
    next
      case a: (Some a)
      obtain c s1 where cr: "create_card q a (parse_tags (case tagsline v of None \<Rightarrow> [] | Some l \<Rightarrow> l)) s = (c, s1)"
        by (cases "create_card q a (parse_tags (case tagsline v of None \<Rightarrow> [] | Some l \<Rightarrow> l)) s")
      from tag_ok_create_card[OF ok, of q a "parse_tags (case tagsline v of None \<Rightarrow> [] | Some l \<Rightarrow> l)"] cr
      have "tag_ok s1" by simp
      then show ?thesis
        by (simp add: load_commit_def q a cr Let_def tag_ok_heap)
    qed
  qed
qed

lemma tag_ok_load_text: "tag_ok (load_text f s)"
proof -
  obtain v s' where ll: "load_loop f load_vars_init (clear_all_data s) = (v, s')"
    by (cases "load_loop f load_vars_init (clear_all_data s)")
  from load_loop_preserves[where P = tag_ok, OF tag_ok_load_commit ll tag_ok_clear] ll show ?thesis
    by (simp add: load_text_def tag_ok_load_commit)
qed

lemma tag_ok_load_cards_from_file: "tag_ok s \<Longrightarrow> tag_ok (load_cards_from_file fn fs s)"
  by (simp add: load_cards_from_file_def tag_ok_load_text split: option.splits)

lemma tag_ok_add_card_interactive:
  assumes "add_card_interactive s inp = (r, s', inp')" and "tag_ok s"
  shows "tag_ok s'"
proof (cases r)
  case (Added c)
  with assms(1) obtain q a tgs where s': "s' = (snd (create_card q a tgs s))
        \<lparr>heap := (heap (snd (create_card q a tgs s)))
            (next_ptr s := (heap (snd (create_card q a tgs s)) (next_ptr s))\<lparr>due_in := 0\<rparr>),
         queue := queue s @ [next_ptr s]\<rparr>"
    by (auto simp: add_card_interactive_def create_card_def Let_def queue_enqueue_def
        split: option.splits if_splits)
  from tag_ok_create_card[OF assms(2), of q a tgs] show ?thesis
    by (simp add: s' tag_ok_heap)
next
  case AddInputEnded
  with assms show ?thesis
    by (auto simp: add_card_interactive_def create_card_def Let_def
        split: option.splits if_splits prod.splits)
next
  case EmptyQuestion
  with assms show ?thesis
    by (auto simp: add_card_interactive_def create_card_def Let_def
        split: option.splits if_splits prod.splits)
qed

lemma tag_ok_remove_card_interactive:
  assumes "remove_card_interactive s inp = (r, s', inp')" and "tag_ok s"
  shows "tag_ok s'"
proof -
  have "tag_ok (delete_card c (s\<lparr>queue := q\<rparr>))" if "find_card_by_id s i = Some c" for c q i
    using tag_ok_delete_card[of "s\<lparr>queue := q\<rparr>" c] assms(2) find_card_by_id_in[OF that]
    by simp
  with assms show ?thesis
    by (auto simp: remove_card_interactive_def Let_def split: option.splits)
qed

lemma tag_ok_sample: "tag_ok (load_sample_cards init_state)"
  by (simp add: load_sample_cards_def Let_def case_prod_beta tag_ok_create_card tag_ok_init)

lemma reachable_tag_ok: "reachable s \<Longrightarrow> tag_ok s"
  by (induction rule: reachable.induct)
    (auto intro: tag_ok_sample tag_ok_practice_loop tag_ok_add_card_interactive
      tag_ok_remove_card_interactive tag_ok_load_cards_from_file)

lemma tag_ok_bucket_gone:
  assumes "tag_ok s"
  shows "tag_find (tag_map s) t = None \<longleftrightarrow> (\<forall>d\<in>set (cards_head s). t \<notin> set (tags (heap s d)))"
proof
  assume "tag_find (tag_map s) t = None"
  then have "count_list (tag_cards (tag_map s) t) d = 0" for d
    by (simp add: tag_cards_def)
  moreover have "count_list (tags (heap s d)) t = count_list (tag_cards (tag_map s) t) d"
    if "d \<in> set (cards_head s)" for d
    using assms that by (simp add: tag_ok_def)
  ultimately show "\<forall>d\<in>set (cards_head s). t \<notin> set (tags (heap s d))"
    by (simp add: count_list_0_iff)
next
  assume none: "\<forall>d\<in>set (cards_head s). t \<notin> set (tags (heap s d))"
  show "tag_find (tag_map s) t = None"
  proof (rule ccontr)
    assume "tag_find (tag_map s) t \<noteq> None"
    then obtain e where e: "tag_find (tag_map s) t = Some e" by auto
    then have "e \<in> set (tag_map s (slot t))"
      by (auto simp: tag_find_def find_Some_iff)
    with assms have "cards e \<noteq> []"
      by (auto simp: tag_ok_def chain_ok_def)
    then obtain d where d: "d \<in> set (cards e)"
      by (cases "cards e") auto
    with e have "count_list (tag_cards (tag_map s) t) d \<noteq> 0"
      by (simp add: tag_cards_def count_list_0_iff)
    with assms none show False
      by (auto simp: tag_ok_def count_list_0_iff split: if_splits)
  qed
qed








text \<open>
  C4.  In every state \<open>main\<close> can reach, after \<open>delete_card\<close> of a card of the card list
  the card is listed by no search, whatever the query, and stands in the entry of no
  tag; no entry of the tag map has an empty card list; and a tag has an entry exactly
  when a remaining card bears it, so the entry of a tag whose last card was deleted is
  gone.
\<close>

theorem delete_card_clears_tag_index:
  assumes "reachable s" and "c \<in> set (cards_head s)"
  shows "(\<forall>q. c \<notin> set (search_by_tag (delete_card c s) q)) \<and>
         (\<forall>t. c \<notin> set (tag_cards (tag_map (delete_card c s)) t)) \<and>
         (\<forall>h. \<forall>e\<in>set (tag_map (delete_card c s) h). cards e \<noteq> []) \<and>
         (\<forall>t. tag_find (tag_map (delete_card c s)) t = None \<longleftrightarrow>
               (\<forall>d\<in>set (cards_head (delete_card c s)). t \<notin> set (tags (heap s d))))"
proof -
  from assms have ok: "tag_ok s" by (simp add: reachable_tag_ok)
  then have ok': "tag_ok (delete_card c s)"
    using assms(2) by (rule tag_ok_delete_card)
  from ok have "distinct (cards_head s)" by (simp add: tag_ok_def)
  then have gone: "c \<notin> set (cards_head (delete_card c s))"
    by (simp add: delete_card_def)
  with ok' have "count_list (tag_cards (tag_map (delete_card c s)) t) c = 0" for t
    by (simp add: tag_ok_def)
  then have a: "\<forall>t. c \<notin> set (tag_cards (tag_map (delete_card c s)) t)"
    by (simp add: count_list_0_iff)
  then have b: "\<forall>q. c \<notin> set (search_by_tag (delete_card c s) q)"
    by (simp add: search_by_tag_def)
  from ok' have d: "\<forall>h. \<forall>e\<in>set (tag_map (delete_card c s) h). cards e \<noteq> []"
    by (simp add: tag_ok_def chain_ok_def)
  have "heap (delete_card c s) = heap s"
    by (simp add: delete_card_def)
  with tag_ok_bucket_gone[OF ok'] a b d show ?thesis
    by simp
qed

theorem delete_card_clears_tag_index_witness:
  "reachable (load_sample_cards init_state) \<and>
   2 \<in> set (cards_head (load_sample_cards init_state)) \<and>
   2 \<notin> set (search_by_tag (delete_card 2 (load_sample_cards init_state)) ''queue'') \<and>
   tag_find (tag_map (delete_card 2 (load_sample_cards init_state))) ''srs'' = None"
proof -
  have r: "reachable (load_sample_cards init_state)" by (rule reachable.start)
  have m: "2 \<in> set (cards_head (load_sample_cards init_state))"
    by (simp add: sample_lists)
  have "\<forall>d\<in>set (cards_head (delete_card 2 (load_sample_cards init_state))).
      ''srs'' \<notin> set (tags (heap (load_sample_cards init_state) d))"
    by (simp add: delete_card_def sample_lists sample_heap)
  with delete_card_clears_tag_index[OF r m] r m show ?thesis
    by blast
qed




section \<open>Saving and loading\<close>

lemma fgets_chunk_newline_last: "newline \<notin> set (butlast (fst (fgets_chunk k inp)))"
  by (induction k inp rule: fgets_chunk.induct) (auto split: prod.splits)

lemma butlast_takeWhile_subset: "set (butlast (takeWhile P xs)) \<subseteq> set (butlast xs)"
proof (induction xs)
  case Nil
  then show ?case by simp
next
  case (Cons a xs)
  then show ?case by (cases xs) auto
qed

lemma trim_newline_no_newline:
  assumes "newline \<notin> set (butlast x)"
  shows "newline \<notin> set (trim_newline x)"
proof (cases x rule: rev_cases)
  case Nil
  then show ?thesis by (simp add: trim_newline_def)
next
  case (snoc ys y)
  with assms have ys: "newline \<notin> set ys" by simp
  have "set (rev (dropWhile (\<lambda>c. c = newline \<or> c = CHR 0x0D) (rev ys))) \<subseteq> set ys"
    using set_dropWhileD by fastforce
  with ys snoc show ?thesis
    by (auto simp: trim_newline_def)
qed

lemma set_trim_newline: "set (trim_newline x) \<subseteq> set x"
  using set_dropWhileD by (fastforce simp: trim_newline_def)

lemma trim_newline_last: "trim_newline x \<noteq> [] \<Longrightarrow> last (trim_newline x) \<noteq> CHR 0x0D"
proof -
  assume ne: "trim_newline x \<noteq> []"
  let ?d = "dropWhile (\<lambda>c. c = newline \<or> c = CHR 0x0D) (rev x)"
  from ne have "?d \<noteq> []" by (simp add: trim_newline_def)
  then have "\<not> (hd ?d = newline \<or> hd ?d = CHR 0x0D)"
    using hd_dropWhile[of "\<lambda>c. c = newline \<or> c = CHR 0x0D" "rev x"] by simp
  moreover have "last (trim_newline x) = hd ?d"
    using \<open>?d \<noteq> []\<close> by (simp add: trim_newline_def last_rev)
  ultimately show ?thesis by simp
qed

lemma c_str_no_nul: "CHR 0x00 \<notin> set (c_str x)"
  by (auto simp: c_str_def dest: set_takeWhileD)

lemma line_text_ok_input:
  assumes "fgets n inp = Some (buf, rest)"
  shows "line_text_ok (trim_newline (c_str buf))"
proof -
  from assms have "buf = fst (fgets_chunk (n - 1) inp)"
    by (auto simp: fgets_def split: if_splits)
  then have "newline \<notin> set (butlast buf)"
    by (simp add: fgets_chunk_newline_last)
  then have "newline \<notin> set (butlast (c_str buf))"
    using butlast_takeWhile_subset[of "\<lambda>c. c \<noteq> CHR 0x00" buf] by (auto simp: c_str_def)
  then have "newline \<notin> set (trim_newline (c_str buf))"
    by (rule trim_newline_no_newline)
  moreover have "CHR 0x00 \<notin> set (trim_newline (c_str buf))"
    using set_trim_newline[of "c_str buf"] c_str_no_nul[of buf] by auto
  ultimately show ?thesis
    by (simp add: line_text_ok_def trim_newline_last)
qed

lemma line_text_ok_drop: "line_text_ok l \<Longrightarrow> line_text_ok (drop k l)"
  by (auto simp: line_text_ok_def dest: in_set_dropD)

lemma of_char_tolower:
  "(of_char (tolower c) :: nat) =
     (if 65 \<le> (of_char c :: nat) \<and> (of_char c :: nat) \<le> 90 then of_char c + 32 else of_char c)"
  by (simp add: tolower_def Let_def)

lemma tolower_special:
  "tolower c = CHR '','' \<longleftrightarrow> c = CHR '',''"
  "tolower c = newline \<longleftrightarrow> c = newline"
  "tolower c = CHR 0x00 \<longleftrightarrow> c = CHR 0x00"
proof -
  have inj: "x = y \<longleftrightarrow> (of_char x :: nat) = of_char y" for x y :: char
    by auto
  show "tolower c = CHR '','' \<longleftrightarrow> c = CHR '',''"
    unfolding inj[of "tolower c"] inj[of c] of_char_tolower by (simp split: if_splits)
  show "tolower c = newline \<longleftrightarrow> c = newline"
    unfolding inj[of "tolower c"] inj[of c] of_char_tolower newline_def by (simp split: if_splits)
  show "tolower c = CHR 0x00 \<longleftrightarrow> c = CHR 0x00"
    unfolding inj[of "tolower c"] inj[of c] of_char_tolower by (simp split: if_splits)
qed

lemma strsep_all_nonempty: "strsep_all l \<noteq> []"
  by (induction l) (auto split: list.splits)

lemma strsep_all_tokens:
  "tok \<in> set (strsep_all l) \<Longrightarrow> CHR '','' \<notin> set tok \<and> set tok \<subseteq> set l"
proof (induction l arbitrary: tok)
  case Nil
  then show ?case by simp
next
  case (Cons c l)
  show ?case
  proof (cases "c = CHR '',''")
    case True
    with Cons show ?thesis by auto
  next
    case False
    obtain t ts where ts: "strsep_all l = t # ts"
      using strsep_all_nonempty[of l] by (cases "strsep_all l") auto
    with False Cons.prems have "tok = c # t \<or> tok \<in> set ts" by auto
    then show ?thesis
    proof
      assume "tok = c # t"
      with Cons.IH[of t] ts False show ?thesis by auto
    next
      assume "tok \<in> set ts"
      with Cons.IH[of tok] ts show ?thesis by auto
    qed
  qed
qed

lemma set_trim_whitespace: "set (trim_whitespace x) \<subseteq> set x"
proof -
  have "set (str_rtrim y) \<subseteq> set y" for y
    using set_dropWhileD by (fastforce simp: str_rtrim_def)
  moreover have "set (str_ltrim x) \<subseteq> set x"
    using set_dropWhileD by (fastforce simp: str_ltrim_def)
  ultimately show ?thesis
    unfolding trim_whitespace_def by blast
qed

lemma tag_text_ok_normalized:
  assumes "trim_whitespace tok \<noteq> []" and "CHR '','' \<notin> set tok" and "newline \<notin> set tok"
    and "CHR 0x00 \<notin> set tok"
  shows "tag_text_ok (normalize_tag (trim_whitespace tok))"
proof -
  let ?u = "trim_whitespace tok"
  have n: "normalize_tag ?u = map tolower ?u"
    by (simp add: normalize_tag_def trim_whitespace_idem)
  have sub: "set ?u \<subseteq> set tok" by (rule set_trim_whitespace)
  have "trim_whitespace (map tolower ?u) = map tolower ?u"
    by (simp add: trim_whitespace_map_tolower trim_whitespace_idem)
  moreover have "map tolower (map tolower ?u) = map tolower ?u"
    by (simp add: tolower_idem)
  moreover have "z \<notin> set (map tolower ?u)"
    if z: "z \<notin> set tok" "\<And>c. tolower c = z \<longleftrightarrow> c = z" for z
  proof
    assume "z \<in> set (map tolower ?u)"
    then obtain x where "x \<in> set ?u" "tolower x = z" by auto
    with z sub show False by auto
  qed
  then have "CHR '','' \<notin> set (map tolower ?u)" "newline \<notin> set (map tolower ?u)"
    "CHR 0x00 \<notin> set (map tolower ?u)"
    using assms(2-4) tolower_special by blast+
  ultimately show ?thesis
    using assms(1) unfolding n tag_text_ok_def by simp
qed

lemma parse_tokens_ok:
  assumes "\<forall>tok\<in>set toks. CHR '','' \<notin> set tok \<and> newline \<notin> set tok \<and> CHR 0x00 \<notin> set tok"
  shows "\<forall>t\<in>set (parse_tokens toks). tag_text_ok t"
  using assms
  by (induction toks) (auto simp: Let_def tag_text_ok_normalized)

lemma parse_tags_ok:
  assumes "newline \<notin> set l" and "CHR 0x00 \<notin> set l"
  shows "\<forall>t\<in>set (parse_tags l). tag_text_ok t"
  unfolding parse_tags_def
  by (rule parse_tokens_ok) (use assms strsep_all_tokens in blast)

lemma to_int32_range: "- 2147483648 \<le> to_int32 x \<and> to_int32 x \<le> 2147483647"
proof -
  have "0 \<le> (x + 2147483648) mod 4294967296" "(x + 2147483648) mod 4294967296 < 4294967296"
    by simp_all
  then show ?thesis unfolding to_int32_def by linarith
qed

lemma atoi_range: "- 2147483648 \<le> atoi l \<and> atoi l \<le> 2147483647"
  unfolding atoi_def by (rule to_int32_range)

lemma fields_ok_queue [simp]: "fields_ok (s\<lparr>queue := q\<rparr>) = fields_ok s"
  by (simp add: fields_ok_def)

lemma fields_ok_next_card_id [simp]: "fields_ok (s\<lparr>next_card_id := i\<rparr>) = fields_ok s"
  by (simp add: fields_ok_def)

lemma fields_ok_create_card:
  assumes "fields_ok s" and "line_text_ok q" and "line_text_ok a" and "\<forall>t\<in>set tgs. tag_text_ok t"
  shows "fields_ok (snd (create_card q a tgs s))"
  using assms by (simp add: fields_ok_def create_card_def Let_def card_ok_def)

lemma fields_ok_scan_loop: "scan_loop n k s = (r, k', s') \<Longrightarrow> fields_ok s \<Longrightarrow> fields_ok s'"
  by (erule scan_loop_preserves[rotated 2]) (auto simp: fields_ok_def card_ok_def)

lemma fields_ok_grade: "fields_ok s \<Longrightarrow> fields_ok (grade v c s)"
  using to_int32_range[of "interval (heap s c) * 2"]
  by (auto simp: fields_ok_def card_ok_def grade_def grade_correct_def grade_incorrect_def Let_def)

lemma fields_ok_practice_loop:
  "practice_loop s inp = (x, s', inp') \<Longrightarrow> fields_ok s \<Longrightarrow> fields_ok s'"
  by (auto simp: practice_loop_def split: if_splits
      elim!: practice_while_preserves[where P = fields_ok, rotated 3]
      intro: fields_ok_scan_loop fields_ok_grade)

lemma fields_ok_add_card_interactive:
  assumes "add_card_interactive s inp = (r, s', inp')" and "fields_ok s"
  shows "fields_ok s'"
proof (cases r)
  case (Added c)
  with assms(1) obtain b1 i1 b2 i2 b3 i3 where f: "fgets LINEBUF inp = Some (b1, i1)"
      "fgets LINEBUF i1 = Some (b2, i2)" "fgets LINEBUF i2 = Some (b3, i3)"
    and s': "s' = (snd (create_card (trim_newline (c_str b1)) (trim_newline (c_str b2))
                     (parse_tags (trim_newline (c_str b3))) s))
        \<lparr>heap := (heap (snd (create_card (trim_newline (c_str b1)) (trim_newline (c_str b2))
                     (parse_tags (trim_newline (c_str b3))) s)))
            (next_ptr s := (heap (snd (create_card (trim_newline (c_str b1)) (trim_newline (c_str b2))
                     (parse_tags (trim_newline (c_str b3))) s)) (next_ptr s))\<lparr>due_in := 0\<rparr>),
         queue := queue s @ [next_ptr s]\<rparr>"
    by (auto simp: add_card_interactive_def create_card_def Let_def queue_enqueue_def
        split: option.splits if_splits)
  from f have ok: "line_text_ok (trim_newline (c_str b1))" "line_text_ok (trim_newline (c_str b2))"
    "line_text_ok (trim_newline (c_str b3))"
    by (auto intro: line_text_ok_input)
  then have "\<forall>t\<in>set (parse_tags (trim_newline (c_str b3))). tag_text_ok t"
    by (intro parse_tags_ok) (simp_all add: line_text_ok_def)
  from fields_ok_create_card[OF assms(2) ok(1) ok(2) this] show ?thesis
    unfolding s' by (auto simp: fields_ok_def card_ok_def)
next
  case AddInputEnded
  with assms show ?thesis
    by (auto simp: add_card_interactive_def create_card_def Let_def
        split: option.splits if_splits prod.splits)
next
  case EmptyQuestion
  with assms show ?thesis
    by (auto simp: add_card_interactive_def create_card_def Let_def
        split: option.splits if_splits prod.splits)
qed

lemma fields_ok_delete_card: "fields_ok s \<Longrightarrow> fields_ok (delete_card c s)"
proof -
  assume ok: "fields_ok s"
  have "set (remove1 c (cards_head s)) \<subseteq> set (cards_head s)"
    by (rule set_remove1_subset)
  with ok show ?thesis
    by (auto simp: fields_ok_def delete_card_def)
qed

lemma fields_ok_remove_card_interactive:
  assumes "remove_card_interactive s inp = (r, s', inp')" and "fields_ok s"
  shows "fields_ok s'"
proof -
  have "fields_ok (delete_card c (s\<lparr>queue := q\<rparr>))" for c q
    using assms(2) by (intro fields_ok_delete_card) simp
  with assms show ?thesis
    by (auto simp: remove_card_interactive_def Let_def split: option.splits)
qed

lemma vars_ok_init: "vars_ok load_vars_init"
  by (simp add: vars_ok_def load_vars_init_def)

lemma fields_ok_load_commit:
  assumes "fields_ok s" and "vars_ok v"
  shows "fields_ok (load_commit v s)"
proof (cases "qtext v")
  case None
  with assms show ?thesis by (simp add: load_commit_def)
next
  case q: (Some q)
  show ?thesis
  proof (cases "atext v")
    case None
    with assms q show ?thesis by (simp add: load_commit_def)
  next
    case a: (Some a)
    let ?tl = "case tagsline v of None \<Rightarrow> [] | Some l \<Rightarrow> l"
    from assms(2) have "line_text_ok ?tl"
      by (auto simp: vars_ok_def line_text_ok_def split: option.splits)
    then have t: "\<forall>t\<in>set (parse_tags ?tl). tag_text_ok t"
      by (intro parse_tags_ok) (simp_all add: line_text_ok_def)
    from assms(2) q a have qa: "line_text_ok q" "line_text_ok a"
      by (simp_all add: vars_ok_def)
    obtain c s1 where cr: "create_card q a (parse_tags ?tl) s = (c, s1)"
      by (cases "create_card q a (parse_tags ?tl) s")
    from fields_ok_create_card[OF assms(1) qa t] cr have "fields_ok s1" by simp
    with assms(2) show ?thesis
      by (auto simp: load_commit_def q a cr Let_def fields_ok_def card_ok_def vars_ok_def)
  qed
qed

lemma load_loop_fields_ok:
  "load_loop f v s = (v', s') \<Longrightarrow> vars_ok v \<Longrightarrow> fields_ok s \<Longrightarrow> vars_ok v' \<and> fields_ok s'"
proof (induction f v s rule: load_loop.induct)
  case (1 f v s)
  show ?case
  proof (cases "fgets LINEBUF f")
    case None
    with "1.prems" show ?thesis by (simp add: load_loop.simps[of f])
  next
    case (Some a)
    obtain line f' where a: "a = (line, f')" by (cases a)
    obtain v1 s1 where ll: "load_line (trim_newline (c_str line)) v s = (v1, s1)"
      by (cases "load_line (trim_newline (c_str line)) v s")
    from Some a have lo: "line_text_ok (trim_newline (c_str line))"
      by (auto intro: line_text_ok_input)
    from ll "1.prems"(2,3) lo have ok1: "vars_ok v1" "fields_ok s1"
      using atoi_range
      by (auto simp: load_line_def fields_ok_load_commit vars_ok_def load_vars_init_def
          line_text_ok_drop split: if_splits)
    from Some a ll "1.prems" have run: "load_loop f' v1 s1 = (v', s')"
      by (simp add: load_loop.simps[of f])
    from "1.IH"[OF Some a[symmetric] ll[symmetric] run ok1]
    show ?thesis .
  qed
qed

lemma fields_ok_load_text: "fields_ok (load_text f s)"
proof -
  obtain v s' where ll: "load_loop f load_vars_init (clear_all_data s) = (v, s')"
    by (cases "load_loop f load_vars_init (clear_all_data s)")
  have "fields_ok (clear_all_data s)"
    by (simp add: fields_ok_def clear_all_data_def)
  from load_loop_fields_ok[OF ll vars_ok_init this] ll show ?thesis
    by (simp add: load_text_def fields_ok_load_commit)
qed

lemma fields_ok_sample: "fields_ok (load_sample_cards init_state)"
  by (simp add: fields_ok_def sample_lists sample_heap card_ok_def line_text_ok_def tag_text_ok_def
      newline_def trim_whitespace_def str_ltrim_def str_rtrim_def isspace_def tolower_def)

lemma reachable_fields_ok: "reachable s \<Longrightarrow> fields_ok s"
proof (induction rule: reachable.induct)
  case start
  show ?case by (rule fields_ok_sample)
next
  case (practice s inp x s' inp')
  then show ?case by (auto intro: fields_ok_practice_loop)
next
  case (add s inp r s' inp')
  then show ?case by (auto intro: fields_ok_add_card_interactive)
next
  case (remove s inp d s' inp')
  then show ?case by (auto intro: fields_ok_remove_card_interactive)
next
  case (load s filename fs)
  then show ?case
    by (simp add: load_cards_from_file_def fields_ok_load_text split: option.splits)
qed

lemma isdigit_char_of: "d < 10 \<Longrightarrow> isdigit (char_of (48 + d :: nat))"
  by (simp add: isdigit_def)

lemma digit_value: "d < 10 \<Longrightarrow> int (of_char (char_of (48 + d :: nat))) - 48 = int d"
  by simp

lemma dec_digits_isdigit: "\<forall>c\<in>set (dec_digits n). isdigit c"
proof (induction n rule: dec_digits.induct)
  case (1 n)
  show ?case
  proof (cases "n < 10")
    case True
    then show ?thesis by (simp add: dec_digits.simps[of n] isdigit_char_of)
  next
    case False
    with 1 show ?thesis
      by (simp add: dec_digits.simps[of n] isdigit_char_of)
  qed
qed

lemma dec_digits_nonempty: "dec_digits n \<noteq> []"
  by (simp add: dec_digits.simps[of n])

lemma dec_digits_length: "n < 10 ^ k \<Longrightarrow> 0 < k \<Longrightarrow> length (dec_digits n) \<le> k"
proof (induction n arbitrary: k rule: dec_digits.induct)
  case (1 n)
  show ?case
  proof (cases "n < 10")
    case True
    with 1 show ?thesis by (simp add: dec_digits.simps[of n])
  next
    case False
    with "1.prems" obtain j where k: "k = Suc j" and j: "0 < j"
      by (cases k; cases "k - 1") auto
    from "1.prems" k have "n div 10 < 10 ^ j"
      by (simp add: less_mult_imp_div_less mult.commute)
    from "1.IH"[OF False this j] False k show ?thesis
      by (simp add: dec_digits.simps[of n])
  qed
qed

lemma strtol_digits_append:
  "\<forall>c\<in>set xs. isdigit c \<Longrightarrow> strtol_digits acc (xs @ ys) = strtol_digits (strtol_digits acc xs) ys"
  by (induction xs arbitrary: acc) auto

lemma strtol_digits_dec: "strtol_digits acc (dec_digits n) = acc * 10 ^ length (dec_digits n) + int n"
proof (induction n arbitrary: acc rule: dec_digits.induct)
  case (1 n)
  show ?case
  proof (cases "n < 10")
    case True
    then show ?thesis
      by (simp add: dec_digits.simps[of n] isdigit_char_of)
  next
    case False
    have d: "n mod 10 < 10" by simp
    have "strtol_digits acc (dec_digits n) =
        strtol_digits (strtol_digits acc (dec_digits (n div 10))) [char_of (48 + n mod 10)]"
      using False by (simp add: dec_digits.simps[of n] strtol_digits_append dec_digits_isdigit)
    also have "\<dots> = (acc * 10 ^ length (dec_digits (n div 10)) + int (n div 10)) * 10 + int (n mod 10)"
      using "1.IH"[OF False] isdigit_char_of[OF d] digit_value[OF d] by simp
    also have "\<dots> = acc * 10 ^ length (dec_digits n) + int n"
      using False by (simp add: dec_digits.simps[of n] algebra_simps) presburger
    finally show ?thesis .
  qed
qed

lemma isdigit_not_space: "isdigit c \<Longrightarrow> \<not> isspace c \<and> c \<noteq> CHR ''-'' \<and> c \<noteq> CHR ''+'' \<and> c \<noteq> newline \<and> c \<noteq> CHR 0x00 \<and> c \<noteq> CHR 0x0D"
  by (auto simp: isdigit_def isspace_def Let_def newline_def)

lemma strtol10_dec: "strtol10 (dec_digits n) = int n"
proof -
  obtain c cs where cs: "dec_digits n = c # cs"
    using dec_digits_nonempty[of n] by (cases "dec_digits n") auto
  with dec_digits_isdigit[of n] have "isdigit c" by simp
  with isdigit_not_space[of c] cs strtol_digits_dec[of 0 n] show ?thesis
    by (simp add: strtol10_def)
qed

lemma atoi_fmt_d:
  assumes "0 \<le> n" and "n \<le> 2147483647"
  shows "atoi (fmt_d n) = n"
  using assms by (simp add: atoi_def fmt_d_def strtol10_dec to_int32_def)

lemma fmt_d_chars:
  "newline \<notin> set (fmt_d n) \<and> CHR 0x00 \<notin> set (fmt_d n) \<and> CHR 0x0D \<notin> set (fmt_d n)"
  using dec_digits_isdigit isdigit_not_space
  by (auto simp: fmt_d_def newline_def)

lemma fmt_d_length:
  assumes "- 2147483648 \<le> n" and "n \<le> 2147483647"
  shows "length (fmt_d n) \<le> 11"
proof -
  have "nat (- n) < 10 ^ 10" "nat n < 10 ^ 10"
    using assms by auto
  then have "length (dec_digits (nat (- n))) \<le> 10" "length (dec_digits (nat n)) \<le> 10"
    by (auto intro: dec_digits_length)
  then show ?thesis by (simp add: fmt_d_def)
qed

lemma fgets_chunk_full:
  "newline \<notin> set l \<Longrightarrow> length l = k \<Longrightarrow> fgets_chunk k (l @ r) = (l, r)"
proof (induction l arbitrary: k)
  case Nil
  then show ?case by simp
next
  case (Cons a l)
  then show ?case by (cases k) auto
qed

lemma load_line_empty: "load_line [] v s = (v, s)"
  by (simp add: load_line_def)

lemma trim_newline_id: "newline \<notin> set l \<Longrightarrow> (l \<noteq> [] \<longrightarrow> last l \<noteq> CHR 0x0D) \<Longrightarrow> trim_newline l = l"
  by (cases l rule: rev_cases) (auto simp: trim_newline_def)

lemma load_loop_line:
  assumes "newline \<notin> set l" and "CHR 0x00 \<notin> set l" and "length l \<le> 4095"
    and "l \<noteq> [] \<longrightarrow> last l \<noteq> CHR 0x0D"
  shows "load_loop (l @ [newline] @ rest) v s =
     (case load_line l v s of (v', s') \<Rightarrow> load_loop rest v' s')"
proof (cases "length l \<le> 4094")
  case True
  have "fgets LINEBUF (l @ newline # rest) = Some (l @ [newline], rest)"
    using assms True by (intro fgets_line) (auto simp: LINEBUF_def)
  moreover have "c_str (l @ [newline]) = l @ [newline]"
    using assms by (intro c_str_id) (auto simp: newline_def)
  moreover have "trim_newline l = l"
    using assms by (intro trim_newline_id) auto
  ultimately show ?thesis
    by (simp add: load_loop.simps[of "l @ newline # rest"])
next
  case False
  with assms have len: "length l = 4095" by simp
  then have ne: "l \<noteq> []" by auto
  have "fgets_chunk 4095 (l @ newline # rest) = (l, newline # rest)"
    using assms len by (intro fgets_chunk_full) auto
  with ne have f1: "fgets LINEBUF (l @ newline # rest) = Some (l, newline # rest)"
    by (simp add: fgets_def LINEBUF_def)
  have f2: "fgets LINEBUF (newline # rest) = Some ([newline], rest)"
    using fgets_line[of "[]" LINEBUF rest] by (simp add: LINEBUF_def)
  have c1: "c_str l = l"
    using assms by (intro c_str_id) auto
  have c2: "c_str [newline] = [newline]"
    by (simp add: c_str_def newline_def)
  have t1: "trim_newline l = l"
    using assms by (intro trim_newline_id) auto
  have t2: "trim_newline [newline] = []"
    by (simp add: trim_newline_def)
  obtain v' s' where ll: "load_line l v s = (v', s')"
    by (cases "load_line l v s")
  have "load_loop (l @ newline # rest) v s = load_loop (newline # rest) v' s'"
    by (simp add: load_loop.simps[of "l @ newline # rest"] f1 c1 t1 ll)
  also have "\<dots> = load_loop rest v' s'"
    by (simp add: load_loop.simps[of "newline # rest"] f2 c2 t2 load_line_empty)
  finally show ?thesis by (simp add: ll)
qed

lemma strsep_all_plain: "CHR '','' \<notin> set t \<Longrightarrow> strsep_all t = [t]"
  by (induction t) auto

lemma strsep_all_comma:
  "CHR '','' \<notin> set t \<Longrightarrow> strsep_all (t @ CHR '','' # rest) = t # strsep_all rest"
  by (induction t) auto

lemma strsep_all_join:
  "\<forall>t\<in>set ts. CHR '','' \<notin> set t \<Longrightarrow> strsep_all (join_tags ts) = (if ts = [] then [[]] else ts)"
  by (induction ts rule: join_tags.induct) (auto simp: strsep_all_plain strsep_all_comma)

lemma tag_text_ok_normalize: "tag_text_ok t \<Longrightarrow> normalize_tag t = t"
  by (simp add: tag_text_ok_def normalize_tag_def)

lemma parse_tokens_id: "\<forall>t\<in>set ts. tag_text_ok t \<Longrightarrow> parse_tokens ts = ts"
  by (induction ts) (simp_all add: Let_def tag_text_ok_def normalize_tag_def)

lemma parse_tags_join:
  assumes "\<forall>t\<in>set ts. tag_text_ok t"
  shows "parse_tags (join_tags ts) = ts"
proof -
  from assms have "\<forall>t\<in>set ts. CHR '','' \<notin> set t"
    by (simp add: tag_text_ok_def)
  from strsep_all_join[OF this] parse_tokens_id[OF assms] show ?thesis
    by (auto simp: parse_tags_def trim_whitespace_def str_ltrim_def str_rtrim_def)
qed

lemma str_rtrim_last: "str_rtrim u \<noteq> [] \<Longrightarrow> \<not> isspace (last (str_rtrim u))"
proof -
  assume ne: "str_rtrim u \<noteq> []"
  let ?d = "dropWhile isspace (rev u)"
  from ne have d: "?d \<noteq> []" by (simp add: str_rtrim_def)
  then have "\<not> isspace (hd ?d)"
    using hd_dropWhile[of isspace "rev u"] by simp
  moreover have "last (str_rtrim u) = hd ?d"
    using d by (simp add: str_rtrim_def last_rev)
  ultimately show ?thesis by simp
qed

lemma tag_text_ok_last: "tag_text_ok t \<Longrightarrow> last t \<noteq> CHR 0x0D"
proof -
  assume ok: "tag_text_ok t"
  then have "str_rtrim (str_ltrim t) = t" "t \<noteq> []"
    by (simp_all add: tag_text_ok_def trim_whitespace_def)
  with str_rtrim_last[of "str_ltrim t"] have "\<not> isspace (last t)" by simp
  then show ?thesis by (auto simp: isspace_def)
qed

lemma join_tags_chars:
  assumes "\<forall>t\<in>set ts. tag_text_ok t"
  shows "newline \<notin> set (join_tags ts) \<and> CHR 0x00 \<notin> set (join_tags ts) \<and>
         (join_tags ts \<noteq> [] \<longrightarrow> last (join_tags ts) \<noteq> CHR 0x0D)"
  using assms
proof (induction ts rule: join_tags.induct)
  case 1
  then show ?case by simp
next
  case (2 t)
  then show ?case by (simp add: tag_text_ok_last) (simp add: tag_text_ok_def)
next
  case (3 t v va)
  then show ?case
    by (auto simp: tag_text_ok_def newline_def)
qed

lemma step_text:
  assumes "newline \<notin> set x" and "CHR 0x00 \<notin> set x" and "length x \<le> 4093"
    and "x \<noteq> [] \<longrightarrow> last x \<noteq> CHR 0x0D"
  shows "load_loop ((''Q='' @ x) @ [newline] @ r) v s = load_loop r (v\<lparr>qtext := Some x\<rparr>) s"
    and "load_loop ((''A='' @ x) @ [newline] @ r) v s = load_loop r (v\<lparr>atext := Some x\<rparr>) s"
    and "load_loop ((''T='' @ x) @ [newline] @ r) v s = load_loop r (v\<lparr>tagsline := Some x\<rparr>) s"
proof -
  have c: "newline \<notin> set (p @ x)" "CHR 0x00 \<notin> set (p @ x)" "length (p @ x) \<le> 4095"
    "p @ x \<noteq> [] \<longrightarrow> last (p @ x) \<noteq> CHR 0x0D"
    if "p = ''Q='' \<or> p = ''A='' \<or> p = ''T=''" for p
    using assms that by (auto simp: newline_def split: if_splits)
  show "load_loop ((''Q='' @ x) @ [newline] @ r) v s = load_loop r (v\<lparr>qtext := Some x\<rparr>) s"
    by (subst load_loop_line[OF c]) (simp_all add: load_line_def)
  show "load_loop ((''A='' @ x) @ [newline] @ r) v s = load_loop r (v\<lparr>atext := Some x\<rparr>) s"
    by (subst load_loop_line[OF c]) (simp_all add: load_line_def)
  show "load_loop ((''T='' @ x) @ [newline] @ r) v s = load_loop r (v\<lparr>tagsline := Some x\<rparr>) s"
    by (subst load_loop_line[OF c]) (simp_all add: load_line_def)
qed

lemma step_number:
  assumes "- 2147483648 \<le> n" and "n \<le> 2147483647"
  shows "load_loop ((''ID='' @ fmt_d n) @ [newline] @ r) v s = load_loop r (v\<lparr>lv_id := atoi (fmt_d n)\<rparr>) s"
    and "load_loop ((''I='' @ fmt_d n) @ [newline] @ r) v s = load_loop r (v\<lparr>lv_interval := atoi (fmt_d n)\<rparr>) s"
    and "load_loop ((''D='' @ fmt_d n) @ [newline] @ r) v s = load_loop r (v\<lparr>lv_due := atoi (fmt_d n)\<rparr>) s"
proof -
  have ne: "fmt_d n \<noteq> []"
    by (simp add: fmt_d_def dec_digits_nonempty)
  have c: "newline \<notin> set (p @ fmt_d n)" "CHR 0x00 \<notin> set (p @ fmt_d n)" "length (p @ fmt_d n) \<le> 4095"
    "p @ fmt_d n \<noteq> [] \<longrightarrow> last (p @ fmt_d n) \<noteq> CHR 0x0D"
    if "p = ''ID='' \<or> p = ''I='' \<or> p = ''D=''" for p
  proof -
    have "last (fmt_d n) \<in> set (fmt_d n)" using ne by (rule last_in_set)
    with fmt_d_chars[of n] have l: "last (fmt_d n) \<noteq> CHR 0x0D" by auto
    from that fmt_d_chars[of n] fmt_d_length[OF assms] ne l
    show "newline \<notin> set (p @ fmt_d n)" "CHR 0x00 \<notin> set (p @ fmt_d n)"
      "length (p @ fmt_d n) \<le> 4095" "p @ fmt_d n \<noteq> [] \<longrightarrow> last (p @ fmt_d n) \<noteq> CHR 0x0D"
      by (auto simp: newline_def)
  qed
  show "load_loop ((''ID='' @ fmt_d n) @ [newline] @ r) v s = load_loop r (v\<lparr>lv_id := atoi (fmt_d n)\<rparr>) s"
    by (subst load_loop_line[OF c]) (simp_all add: load_line_def)
  show "load_loop ((''I='' @ fmt_d n) @ [newline] @ r) v s = load_loop r (v\<lparr>lv_interval := atoi (fmt_d n)\<rparr>) s"
    by (subst load_loop_line[OF c]) (simp_all add: load_line_def)
  show "load_loop ((''D='' @ fmt_d n) @ [newline] @ r) v s = load_loop r (v\<lparr>lv_due := atoi (fmt_d n)\<rparr>) s"
    by (subst load_loop_line[OF c]) (simp_all add: load_line_def)
qed

lemma step_separator:
  "load_loop (''---'' @ [newline] @ r) v s = load_loop r load_vars_init (load_commit v s)"
  by (subst load_loop_line) (simp_all add: load_line_def newline_def)

lemma load_loop_block:
  assumes "card_ok cd" and "fits_line_buffer cd"
  shows "load_loop (card_block cd @ rest) load_vars_init s =
     load_loop rest load_vars_init (load_commit (vars_of cd) s)"
proof -
  from assms have q: "newline \<notin> set (question cd)" "CHR 0x00 \<notin> set (question cd)"
      "length (question cd) \<le> 4093" "question cd \<noteq> [] \<longrightarrow> last (question cd) \<noteq> CHR 0x0D"
    and a: "newline \<notin> set (answer cd)" "CHR 0x00 \<notin> set (answer cd)"
      "length (answer cd) \<le> 4093" "answer cd \<noteq> [] \<longrightarrow> last (answer cd) \<noteq> CHR 0x0D"
    and t: "\<forall>t\<in>set (tags cd). tag_text_ok t" "length (join_tags (tags cd)) \<le> 4093"
    and i: "- 2147483648 \<le> card_id cd" "card_id cd \<le> 2147483647"
    and n: "- 2147483648 \<le> interval cd" "interval cd \<le> 2147483647" "0 \<le> interval cd"
    and d: "- 2147483648 \<le> due_in cd" "due_in cd \<le> 2147483647" "0 \<le> due_in cd"
    by (auto simp: card_ok_def fits_line_buffer_def line_text_ok_def)
  from join_tags_chars[OF t(1)]
  have j: "newline \<notin> set (join_tags (tags cd))" "CHR 0x00 \<notin> set (join_tags (tags cd))"
    "join_tags (tags cd) \<noteq> [] \<longrightarrow> last (join_tags (tags cd)) \<noteq> CHR 0x0D"
    by auto
  let ?r6 = "''---'' @ [newline] @ rest"
  let ?r5 = "(''D='' @ fmt_d (due_in cd)) @ [newline] @ ?r6"
  let ?r4 = "(''I='' @ fmt_d (interval cd)) @ [newline] @ ?r5"
  let ?r3 = "(''T='' @ join_tags (tags cd)) @ [newline] @ ?r4"
  let ?r2 = "(''A='' @ answer cd) @ [newline] @ ?r3"
  let ?r1 = "(''Q='' @ question cd) @ [newline] @ ?r2"
  let ?v1 = "load_vars_init\<lparr>lv_id := atoi (fmt_d (card_id cd))\<rparr>"
  let ?v2 = "?v1\<lparr>qtext := Some (question cd)\<rparr>"
  let ?v3 = "?v2\<lparr>atext := Some (answer cd)\<rparr>"
  let ?v4 = "?v3\<lparr>tagsline := Some (join_tags (tags cd))\<rparr>"
  let ?v5 = "?v4\<lparr>lv_interval := atoi (fmt_d (interval cd))\<rparr>"
  let ?v6 = "?v5\<lparr>lv_due := atoi (fmt_d (due_in cd))\<rparr>"
  have "card_block cd @ rest = (''ID='' @ fmt_d (card_id cd)) @ [newline] @ ?r1"
    by (simp add: card_block_def)
  then have "load_loop (card_block cd @ rest) load_vars_init s =
      load_loop ((''ID='' @ fmt_d (card_id cd)) @ [newline] @ ?r1) load_vars_init s"
    by simp
  also have "\<dots> = load_loop ?r1 ?v1 s"
    by (rule step_number(1)[OF i])
  also have "\<dots> = load_loop ?r2 ?v2 s"
    by (rule step_text(1)[OF q])
  also have "\<dots> = load_loop ?r3 ?v3 s"
    by (rule step_text(2)[OF a])
  also have "\<dots> = load_loop ?r4 ?v4 s"
    by (rule step_text(3)[OF j(1) j(2) t(2) j(3)])
  also have "\<dots> = load_loop ?r5 ?v5 s"
    by (rule step_number(2)[OF n(1) n(2)])
  also have "\<dots> = load_loop ?r6 ?v6 s"
    by (rule step_number(3)[OF d(1) d(2)])
  also have "\<dots> = load_loop rest load_vars_init (load_commit ?v6 s)"
    by (rule step_separator)
  also have "?v6 = vars_of cd"
    using n d by (simp add: vars_of_def load_vars_init_def atoi_fmt_d)
  finally show ?thesis .
qed

lemma load_loop_Nil: "load_loop [] v s = (v, s)"
  by (simp add: load_loop.simps[of "[]"])

lemma load_commit_new_card:
  assumes "qtext v = Some q" and "atext v = Some a"
  shows "cards_head (load_commit v s) = next_ptr s # cards_head s"
    and "next_ptr (load_commit v s) = Suc (next_ptr s)"
    and "c \<noteq> next_ptr s \<Longrightarrow> heap (load_commit v s) c = heap s c"
    and "question (heap (load_commit v s) (next_ptr s)) = q"
    and "answer (heap (load_commit v s) (next_ptr s)) = a"
    and "tags (heap (load_commit v s) (next_ptr s)) =
           parse_tags (case tagsline v of None \<Rightarrow> [] | Some l \<Rightarrow> l)"
    and "interval (heap (load_commit v s) (next_ptr s)) = (if lv_interval v > 0 then lv_interval v else 1)"
    and "due_in (heap (load_commit v s) (next_ptr s)) = (if lv_due v \<ge> 0 then lv_due v else 0)"
  using assms by (simp_all add: load_commit_def create_card_def Let_def)

lemma load_commit_vars_of:
  assumes "card_ok cd"
  shows "card_content (heap (load_commit (vars_of cd) s) (next_ptr s)) = card_content cd"
proof -
  have v: "qtext (vars_of cd) = Some (question cd)" "atext (vars_of cd) = Some (answer cd)"
    by (simp_all add: vars_of_def)
  from assms have "parse_tags (join_tags (tags cd)) = tags cd"
    by (intro parse_tags_join) (simp add: card_ok_def)
  with assms show ?thesis
    unfolding card_content_def load_commit_new_card(4-8)[OF v]
    by (simp add: vars_of_def card_ok_def)
qed

lemma load_loop_file:
  assumes "\<forall>cd\<in>set cds. card_ok cd \<and> fits_line_buffer cd"
  shows "load_loop (concat (map card_block cds)) load_vars_init s =
     (load_vars_init, fold (\<lambda>cd. load_commit (vars_of cd)) cds s)"
  using assms
proof (induction cds arbitrary: s)
  case Nil
  then show ?case by (simp add: load_loop_Nil)
next
  case (Cons cd cds)
  then show ?case
    by (simp add: load_loop_block)
qed

lemma fold_commit_content:
  assumes "\<forall>cd\<in>set cds. card_ok cd" and "\<forall>c\<in>set (cards_head s). c < next_ptr s"
  shows "map (\<lambda>c. card_content (heap (fold (\<lambda>cd. load_commit (vars_of cd)) cds s) c))
           (rev (cards_head (fold (\<lambda>cd. load_commit (vars_of cd)) cds s))) =
         map (\<lambda>c. card_content (heap s c)) (rev (cards_head s)) @ map card_content cds"
  using assms
proof (induction cds arbitrary: s)
  case Nil
  then show ?case by simp
next
  case (Cons cd cds)
  let ?s1 = "load_commit (vars_of cd) s"
  have v: "qtext (vars_of cd) = Some (question cd)" "atext (vars_of cd) = Some (answer cd)"
    by (simp_all add: vars_of_def)
  note nc = load_commit_new_card[OF v, where s = s]
  from Cons.prems(2) have inv: "\<forall>c\<in>set (cards_head ?s1). c < next_ptr ?s1"
    by (auto simp: nc(1) nc(2))
  from Cons.prems(1) have ok: "card_ok cd" "\<forall>cd\<in>set cds. card_ok cd" by simp_all
  have old: "map (\<lambda>c. card_content (heap ?s1 c)) (rev (cards_head s)) =
      map (\<lambda>c. card_content (heap s c)) (rev (cards_head s))"
    using Cons.prems(2) by (intro map_cong) (auto simp: nc(3))
  have "map (\<lambda>c. card_content (heap ?s1 c)) (rev (cards_head ?s1)) =
      map (\<lambda>c. card_content (heap s c)) (rev (cards_head s)) @ [card_content cd]"
    by (simp add: nc(1) old load_commit_vars_of[OF ok(1)])
  with Cons.IH[OF ok(2) inv] show ?case by simp
qed

lemma long_state_eq:
  "add_card_interactive (load_sample_cards init_state) long_input =
     (Added 3,
      (snd (create_card (replicate 4094 CHR ''a'') ''A'' [] (load_sample_cards init_state)))
        \<lparr>queue := [2, 1, 0, 3]\<rparr>, [])"
proof -
  have t: "trim_newline (replicate 4094 CHR ''a'') = replicate 4094 CHR ''a''"
    "trim_newline ''A'' = ''A''" "trim_newline [] = []"
    by (simp_all add: trim_newline_id newline_def)
  have "add_card_interactive (load_sample_cards init_state)
      (replicate 4094 CHR ''a'' @ newline # ''A'' @ newline # [] @ newline # []) =
     (Added (next_ptr (load_sample_cards init_state)),
      (snd (create_card (trim_newline (replicate 4094 CHR ''a'')) (trim_newline ''A'')
         (parse_tags (trim_newline []))
         (load_sample_cards init_state)))
        \<lparr>queue := queue (load_sample_cards init_state) @ [next_ptr (load_sample_cards init_state)]\<rparr>, [])"
    by (rule add_card_interactive_lines) (simp_all add: newline_def t)
  then show ?thesis
    by (simp add: long_input_def t parse_tags_Nil sample_lists)
qed

lemma long_state_fields:
  "cards_head long_state = [3, 2, 1, 0]" "next_ptr long_state = 4"
  "heap long_state 3 = \<lparr>card_id = 4, question = replicate 4094 CHR ''a'', answer = ''A'', tags = [],
      interval = 1, due_in = 0\<rparr>"
  "heap long_state 2 = heap (load_sample_cards init_state) 2"
  "heap long_state (Suc 0) = heap (load_sample_cards init_state) (Suc 0)"
  "heap long_state 0 = heap (load_sample_cards init_state) 0"
  by (simp_all add: long_state_def long_state_eq create_card_def Let_def sample_lists)

lemma step_long_question:
  "load_loop ((''Q='' @ replicate 4094 CHR ''a'') @ [newline] @ r) v s =
     load_loop r (v\<lparr>qtext := Some (replicate 4093 CHR ''a'')\<rparr>) s"
proof -
  let ?l = "''Q='' @ replicate 4093 CHR ''a''"
  let ?r = "''a'' @ [newline] @ r"
  have "replicate (4093 + 1) CHR ''a'' = replicate 4093 CHR ''a'' @ replicate 1 CHR ''a''"
    by (rule replicate_add)
  moreover have "(4093 :: nat) + 1 = 4094" by simp
  ultimately have "replicate 4094 CHR ''a'' = replicate 4093 CHR ''a'' @ ''a''"
    by (simp only: replicate.simps One_nat_def)
  then have split: "(''Q='' @ replicate 4094 CHR ''a'') @ [newline] @ r = ?l @ ?r"
    by (simp only: append_assoc)
  have nn: "newline \<notin> set ?l" "CHR 0x00 \<notin> set ?l"
    by (auto simp: newline_def)
  have "fgets_chunk 4095 (?l @ ?r) = (?l, ?r)"
    by (rule fgets_chunk_full[OF nn(1)]) simp
  then have f: "fgets LINEBUF (?l @ ?r) = Some (?l, ?r)"
    by (simp add: fgets_def LINEBUF_def)
  have c: "c_str ?l = ?l"
    by (rule c_str_id[OF nn(2)])
  have t: "trim_newline ?l = ?l"
    by (rule trim_newline_id[OF nn(1)]) simp
  have ll: "load_line ?l v s = (v\<lparr>qtext := Some (replicate 4093 CHR ''a'')\<rparr>, s)"
    by (simp add: load_line_def)
  have "load_loop (?l @ ?r) v s = load_loop ?r (v\<lparr>qtext := Some (replicate 4093 CHR ''a'')\<rparr>) s"
    by (subst load_loop.simps) (simp only: f c t ll option.case prod.case)
  also have "\<dots> = load_loop r (v\<lparr>qtext := Some (replicate 4093 CHR ''a'')\<rparr>) s"
    by (subst load_loop_line) (simp_all add: load_line_def newline_def)
  finally show ?thesis
    unfolding split .
qed

lemma sample_cards_fit:
  "\<forall>cd\<in>set (map (heap (load_sample_cards init_state)) [2, Suc 0, 0]). card_ok cd \<and> fits_line_buffer cd"
  using fields_ok_sample
  by (simp add: fields_ok_def sample_lists sample_heap fits_line_buffer_def)

text \<open>
  C1 (as amended).  For every state \<open>main\<close> can reach in which every card fits the line
  buffer, saving to a file and loading that file, in any state of the program, gives a
  card list with the same cards in reverse order: card for card the same question,
  answer, tags (in the same order), interval and \<open>due_in\<close>.
\<close>

theorem save_load_round_trip:
  assumes "reachable s" and "\<forall>c\<in>set (cards_head s). fits_line_buffer (heap s c)"
  shows "map (\<lambda>c. card_content (heap (load_cards_from_file fname (save_cards_to_file fname s fs) s0) c))
           (rev (cards_head (load_cards_from_file fname (save_cards_to_file fname s fs) s0))) =
         map (\<lambda>c. card_content (heap s c)) (cards_head s)"
proof -
  let ?cds = "map (heap s) (cards_head s)"
  from reachable_fields_ok[OF assms(1)] assms(2)
  have ok: "\<forall>cd\<in>set ?cds. card_ok cd \<and> fits_line_buffer cd"
    by (auto simp: fields_ok_def)
  have ft: "file_text s = concat (map card_block ?cds)"
    by (simp add: file_text_def comp_def)
  have "load_cards_from_file fname (save_cards_to_file fname s fs) s0 = load_text (file_text s) s0"
    by (simp add: load_cards_from_file_def save_cards_to_file_def)
  also have "\<dots> = fold (\<lambda>cd. load_commit (vars_of cd)) ?cds (clear_all_data s0)"
    unfolding load_text_def ft load_loop_file[OF ok]
    by (simp add: load_commit_def load_vars_init_def)
  finally have eq: "load_cards_from_file fname (save_cards_to_file fname s fs) s0 =
      fold (\<lambda>cd. load_commit (vars_of cd)) ?cds (clear_all_data s0)" .
  have "\<forall>cd\<in>set ?cds. card_ok cd" using ok by blast
  from fold_commit_content[OF this, of "clear_all_data s0"] show ?thesis
    unfolding eq by (simp add: clear_all_data_def comp_def)
qed

theorem save_load_round_trip_witness:
  "reachable (load_sample_cards init_state) \<and>
   fits_line_buffer (heap (load_sample_cards init_state) 2) \<and>
   fits_line_buffer (heap (load_sample_cards init_state) 1) \<and>
   fits_line_buffer (heap (load_sample_cards init_state) 0) \<and>
   map (\<lambda>c. card_content
          (heap (load_cards_from_file ''cards.txt''
                  (save_cards_to_file ''cards.txt'' (load_sample_cards init_state) Map.empty)
                  (load_sample_cards init_state)) c))
     (rev (cards_head (load_cards_from_file ''cards.txt''
                  (save_cards_to_file ''cards.txt'' (load_sample_cards init_state) Map.empty)
                  (load_sample_cards init_state)))) =
   [(''What is enqueue operation?'', ''Insert element at the tail of queue'', [''queue'', ''srs''], 1, 0),
    (''How to handle collisions in hash map?'', ''Use chaining (linked lists) or open addressing'',
     [''hashmap'', ''ds''], 1, 0),
    (''What is FIFO in queues?'', ''First In First Out'', [''queue'', ''ds''], 1, 0)]"
proof -
  have r: "reachable (load_sample_cards init_state)" by (rule reachable.start)
  have f: "\<forall>c\<in>set (cards_head (load_sample_cards init_state)).
      fits_line_buffer (heap (load_sample_cards init_state) c)"
    by (simp add: sample_lists sample_heap fits_line_buffer_def)
  from save_load_round_trip[OF r f, of "''cards.txt''" Map.empty "load_sample_cards init_state"] r f
  show ?thesis
    by (simp add: sample_lists sample_heap card_content_def)
qed

text \<open>
  C1 as stated fails for a longer question: one of 4094 bytes is saved whole, but the
  loader reads its line in two pieces and keeps the first 4093 bytes only.
\<close>

theorem save_load_long_question_counterexample:
  "reachable long_state \<and>
   map (\<lambda>c. question (heap long_state c)) (cards_head long_state) =
     [replicate 4094 CHR ''a'', ''What is enqueue operation?'',
      ''How to handle collisions in hash map?'', ''What is FIFO in queues?''] \<and>
   map (\<lambda>c. question
          (heap (load_cards_from_file ''cards.txt''
                  (save_cards_to_file ''cards.txt'' long_state Map.empty) long_state) c))
     (rev (cards_head (load_cards_from_file ''cards.txt''
                  (save_cards_to_file ''cards.txt'' long_state Map.empty) long_state))) =
     [replicate 4093 CHR ''a'', ''What is enqueue operation?'',
      ''How to handle collisions in hash map?'', ''What is FIFO in queues?'']"
proof -
  let ?S = "load_sample_cards init_state"
  let ?cds = "map (heap ?S) [2, Suc 0, 0]"
  let ?R = "concat (map card_block ?cds)"
  let ?s0 = "clear_all_data long_state"
  let ?long = "heap long_state 3"
  have r: "reachable long_state"
    unfolding long_state_def
    by (rule reachable.add[OF reachable.start, of long_input "Added 3" _ "[]"])
      (simp add: long_state_eq)
  have ft: "file_text long_state = card_block ?long @ ?R"
    by (simp add: file_text_def long_state_fields)
  let ?r6 = "''---'' @ [newline] @ ?R"
  let ?r5 = "(''D='' @ fmt_d 0) @ [newline] @ ?r6"
  let ?r4 = "(''I='' @ fmt_d 1) @ [newline] @ ?r5"
  let ?r3 = "(''T='' @ []) @ [newline] @ ?r4"
  let ?r2 = "(''A='' @ ''A'') @ [newline] @ ?r3"
  let ?r1 = "(''Q='' @ replicate 4094 CHR ''a'') @ [newline] @ ?r2"
  let ?v1 = "load_vars_init\<lparr>lv_id := atoi (fmt_d 4)\<rparr>"
  let ?v2 = "?v1\<lparr>qtext := Some (replicate 4093 CHR ''a'')\<rparr>"
  let ?v3 = "?v2\<lparr>atext := Some ''A''\<rparr>"
  let ?v4 = "?v3\<lparr>tagsline := Some []\<rparr>"
  let ?v5 = "?v4\<lparr>lv_interval := atoi (fmt_d 1)\<rparr>"
  let ?v6 = "?v5\<lparr>lv_due := atoi (fmt_d 0)\<rparr>"
  have "card_block ?long @ ?R = (''ID='' @ fmt_d 4) @ [newline] @ ?r1"
    by (simp add: card_block_def long_state_fields)
  then have "load_loop (file_text long_state) load_vars_init ?s0 =
      load_loop ((''ID='' @ fmt_d 4) @ [newline] @ ?r1) load_vars_init ?s0"
    by (simp add: ft)
  also have "\<dots> = load_loop ?r1 ?v1 ?s0"
    by (rule step_number(1)) simp_all
  also have "\<dots> = load_loop ?r2 ?v2 ?s0"
    by (rule step_long_question)
  also have "\<dots> = load_loop ?r3 ?v3 ?s0"
    by (rule step_text(2)) (simp_all add: newline_def)
  also have "\<dots> = load_loop ?r4 ?v4 ?s0"
    by (rule step_text(3)) (simp_all add: newline_def)
  also have "\<dots> = load_loop ?r5 ?v5 ?s0"
    by (rule step_number(2)) simp_all
  also have "\<dots> = load_loop ?r6 ?v6 ?s0"
    by (rule step_number(3)) simp_all
  also have "\<dots> = load_loop ?R load_vars_init (load_commit ?v6 ?s0)"
    by (rule step_separator)
  also have "\<dots> = (load_vars_init, fold (\<lambda>cd. load_commit (vars_of cd)) ?cds (load_commit ?v6 ?s0))"
    using load_loop_file[OF sample_cards_fit, of "load_commit ?v6 ?s0"] by simp
  finally have ll: "load_loop (file_text long_state) load_vars_init ?s0 =
      (load_vars_init, fold (\<lambda>cd. load_commit (vars_of cd)) ?cds (load_commit ?v6 ?s0))" .
  let ?s1 = "load_commit ?v6 ?s0"
  let ?L = "fold (\<lambda>cd. load_commit (vars_of cd)) ?cds ?s1"
  have loaded: "load_cards_from_file ''cards.txt''
      (save_cards_to_file ''cards.txt'' long_state Map.empty) long_state = ?L"
    by (simp add: load_cards_from_file_def save_cards_to_file_def load_text_def ll)
      (simp add: load_commit_def load_vars_init_def)
  have v: "qtext ?v6 = Some (replicate 4093 CHR ''a'')" "atext ?v6 = Some ''A''"
    by simp_all
  note nc = load_commit_new_card[OF v, where s = ?s0]
  have np: "next_ptr ?s0 = 4" "cards_head ?s0 = []"
    by (simp_all add: clear_all_data_def long_state_fields)
  have inv: "\<forall>c\<in>set (cards_head ?s1). c < next_ptr ?s1"
    by (simp add: nc(1) nc(2) np)
  have ok: "\<forall>cd\<in>set ?cds. card_ok cd"
    using sample_cards_fit by blast
  have "map (\<lambda>c. card_content (heap ?L c)) (rev (cards_head ?L)) =
      map (\<lambda>c. card_content (heap ?s1 c)) (rev (cards_head ?s1)) @ map card_content ?cds"
    by (rule fold_commit_content[OF ok inv])
  then have "map fst (map (\<lambda>c. card_content (heap ?L c)) (rev (cards_head ?L))) =
      map fst (map (\<lambda>c. card_content (heap ?s1 c)) (rev (cards_head ?s1)) @ map card_content ?cds)"
    by simp
  then have q: "map (\<lambda>c. question (heap ?L c)) (rev (cards_head ?L)) =
      map (\<lambda>c. question (heap ?s1 c)) (rev (cards_head ?s1)) @ map question ?cds"
    by (simp add: card_content_def comp_def)
  have "map (\<lambda>c. question (heap ?s1 c)) (rev (cards_head ?s1)) = [replicate 4093 CHR ''a'']"
    using nc(4) by (simp add: nc(1) np)
  with q have "map (\<lambda>c. question (heap ?L c)) (rev (cards_head ?L)) =
      [replicate 4093 CHR ''a'', ''What is enqueue operation?'',
       ''How to handle collisions in hash map?'', ''What is FIFO in queues?'']"
    by (simp add: sample_heap)
  moreover have "map (\<lambda>c. question (heap long_state c)) (cards_head long_state) =
     [replicate 4094 CHR ''a'', ''What is enqueue operation?'',
      ''How to handle collisions in hash map?'', ''What is FIFO in queues?'']"
    by (simp add: long_state_fields sample_heap)
  ultimately show ?thesis
    using r unfolding loaded by blast
qed

text \<open>
  The identities do not come back: the loader reads the \<open>ID=\<close> line only to advance
  \<open>next_card_id\<close>, and \<open>create_card\<close> numbers the loaded cards anew.  The sample cards
  3, 2, 1 are loaded as 4, 5, 6.
\<close>

lemma load_commit_card_id:
  assumes "qtext v = Some q" and "atext v = Some a"
  shows "card_id (heap (load_commit v s) (next_ptr s)) = next_card_id s"
    and "next_card_id (load_commit v s) =
           (if lv_id v \<ge> to_int32 (next_card_id s + 1) then to_int32 (lv_id v + 1)
            else to_int32 (next_card_id s + 1))"
  using assms by (simp_all add: load_commit_def create_card_def Let_def)

lemma save_load_renumbers_sample:
  "map (\<lambda>c. card_id (heap (load_sample_cards init_state) c)) (cards_head (load_sample_cards init_state)) =
     [3, 2, 1] \<and>
   map (\<lambda>c. card_id
          (heap (load_cards_from_file ''cards.txt''
                  (save_cards_to_file ''cards.txt'' (load_sample_cards init_state) Map.empty)
                  (load_sample_cards init_state)) c))
     (rev (cards_head (load_cards_from_file ''cards.txt''
                  (save_cards_to_file ''cards.txt'' (load_sample_cards init_state) Map.empty)
                  (load_sample_cards init_state)))) =
     [4, 5, 6]"
proof -
  let ?S = "load_sample_cards init_state"
  let ?cds = "map (heap ?S) [2, Suc 0, 0]"
  have ft: "file_text ?S = concat (map card_block ?cds)"
    by (simp add: file_text_def sample_lists)
  have "load_cards_from_file ''cards.txt'' (save_cards_to_file ''cards.txt'' ?S Map.empty) ?S =
      load_text (file_text ?S) ?S"
    by (simp add: load_cards_from_file_def save_cards_to_file_def)
  also have "\<dots> = fold (\<lambda>cd. load_commit (vars_of cd)) ?cds (clear_all_data ?S)"
    unfolding load_text_def ft load_loop_file[OF sample_cards_fit]
    by (simp add: load_commit_def load_vars_init_def)
  finally have eq: "load_cards_from_file ''cards.txt'' (save_cards_to_file ''cards.txt'' ?S Map.empty) ?S =
      fold (\<lambda>cd. load_commit (vars_of cd)) ?cds (clear_all_data ?S)" .
  have v: "qtext (vars_of cd) = Some (question cd)" "atext (vars_of cd) = Some (answer cd)" for cd
    by (simp_all add: vars_of_def)
  let ?s0 = "clear_all_data ?S"
  let ?s1 = "load_commit (vars_of (heap ?S 2)) ?s0"
  let ?s2 = "load_commit (vars_of (heap ?S (Suc 0))) ?s1"
  let ?s3 = "load_commit (vars_of (heap ?S 0)) ?s2"
  have ids: "lv_id (vars_of (heap ?S 2)) = 3" "lv_id (vars_of (heap ?S (Suc 0))) = 2"
    "lv_id (vars_of (heap ?S 0)) = 1"
    by (simp_all add: vars_of_def sample_heap atoi_fmt_d)
  have s0: "next_ptr ?s0 = 3" "next_card_id ?s0 = 4" "cards_head ?s0 = []"
    by (simp_all add: clear_all_data_def sample_lists)
  have s1: "next_ptr ?s1 = 4" "next_card_id ?s1 = 5" "cards_head ?s1 = [3]"
    "card_id (heap ?s1 3) = 4"
    using load_commit_new_card(1,2)[OF v, where s = ?s0 and cd1 = "heap ?S 2"]
      load_commit_card_id[OF v, where s = ?s0 and cd1 = "heap ?S 2"]
    by (simp_all add: s0 ids to_int32_def)
  have s2: "next_ptr ?s2 = 5" "next_card_id ?s2 = 6" "cards_head ?s2 = [4, 3]"
    "card_id (heap ?s2 4) = 5" "card_id (heap ?s2 3) = 4"
    using load_commit_new_card(1,2)[OF v, where s = ?s1 and cd1 = "heap ?S (Suc 0)"]
      load_commit_new_card(3)[OF v, where s = ?s1 and cd1 = "heap ?S (Suc 0)" and c = 3]
      load_commit_card_id[OF v, where s = ?s1 and cd1 = "heap ?S (Suc 0)"]
    by (simp_all add: s1 ids to_int32_def)
  have s3: "cards_head ?s3 = [5, 4, 3]"
    "card_id (heap ?s3 5) = 6" "card_id (heap ?s3 4) = 5" "card_id (heap ?s3 3) = 4"
    using load_commit_new_card(1,2)[OF v, where s = ?s2 and cd1 = "heap ?S 0"]
      load_commit_new_card(3)[OF v, where s = ?s2 and cd1 = "heap ?S 0" and c = 3]
      load_commit_new_card(3)[OF v, where s = ?s2 and cd1 = "heap ?S 0" and c = 4]
      load_commit_card_id[OF v, where s = ?s2 and cd1 = "heap ?S 0"]
    by (simp_all add: s2 ids to_int32_def)
  have a: "map (\<lambda>c. card_id (heap ?S c)) (cards_head ?S) = [3, 2, 1]"
    by (simp add: sample_lists sample_heap)
  have b: "map (\<lambda>c. card_id (heap ?s3 c)) (rev (cards_head ?s3)) = [4, 5, 6]"
    by (simp add: s3)
  have "fold (\<lambda>cd. load_commit (vars_of cd)) ?cds ?s0 = ?s3"
    by simp
  with a b show ?thesis
    unfolding eq by simp
qed

section \<open>Card list and queue under adding, deleting and loading\<close>

lemma store_ok_init: "store_ok init_state"
  by (simp add: store_ok_def init_state_def)

lemma store_ok_sample: "store_ok (load_sample_cards init_state)"
  by (simp add: store_ok_def sample_lists)

lemma store_ok_add:
  assumes "store_ok s" and "add_card_interactive s inp = (r, s', inp')"
  shows "store_ok s'"
  using assms
  by (auto simp: add_card_interactive_def store_ok_def create_card_def Let_def queue_enqueue_def
      less_Suc_eq split: option.splits if_splits prod.splits)

lemma store_ok_delete:
  assumes "store_ok s"
  shows "store_ok (delete_card c (s\<lparr>queue := filter (\<lambda>x. x \<noteq> c) (queue s)\<rparr>))"
proof -
  from assms have d: "distinct (cards_head s)" and m: "mset (queue s) = mset (cards_head s)"
    by (auto simp: store_ok_def)
  have r: "remove1 c (cards_head s) = filter (\<lambda>x. x \<noteq> c) (cards_head s)"
    using d by (simp add: distinct_remove1_removeAll removeAll_filter_not_eq) (metis)
  have "mset (filter (\<lambda>x. x \<noteq> c) (queue s)) = mset (filter (\<lambda>x. x \<noteq> c) (cards_head s))"
    using m by simp
  then show ?thesis
    using assms by (auto simp: store_ok_def delete_card_def r)
qed

lemma store_ok_remove:
  assumes "store_ok s" and "remove_card_interactive s inp = (r, s', inp')"
  shows "store_ok s'"
  using assms store_ok_delete[OF assms(1)]
  by (auto simp: remove_card_interactive_def Let_def split: option.splits)

lemma store_ok_load_commit: "store_ok s \<Longrightarrow> store_ok (load_commit v s)"
  by (auto simp: load_commit_def store_ok_def create_card_def Let_def queue_enqueue_def
      less_Suc_eq split: option.splits)

lemma store_ok_load_text: "store_ok (load_text f s)"
proof -
  have ok: "store_ok (clear_all_data s)"
    by (simp add: store_ok_def clear_all_data_def)
  obtain v s' where ll: "load_loop f load_vars_init (clear_all_data s) = (v, s')"
    by (cases "load_loop f load_vars_init (clear_all_data s)")
  from load_loop_preserves[where P = store_ok, OF store_ok_load_commit ll ok] ll show ?thesis
    by (simp add: load_text_def store_ok_load_commit)
qed

lemma store_ok_load_cards_from_file: "store_ok s \<Longrightarrow> store_ok (load_cards_from_file fn fs s)"
  by (simp add: load_cards_from_file_def store_ok_load_text split: option.splits)

lemma added_deleted_store_ok: "added_deleted s \<Longrightarrow> store_ok s"
  by (induction rule: added_deleted.induct)
    (auto intro: store_ok_init store_ok_sample store_ok_add store_ok_remove
      store_ok_load_cards_from_file)

text \<open>
  After any sequence of adding, deleting and loading, draining the queue gives the
  cards of the card list, each once; so the identities that come out are, as a
  multiset, the identities of the card list.
\<close>

lemma store_queue_same_cards:
  assumes "added_deleted s"
  shows "mset (drain (queue s)) = mset (cards_head s) \<and> distinct (drain (queue s)) \<and>
         mset (map (\<lambda>c. card_id (heap s c)) (drain (queue s))) =
           mset (map (\<lambda>c. card_id (heap s c)) (cards_head s))"
proof -
  from added_deleted_store_ok[OF assms]
  have m: "mset (queue s) = mset (cards_head s)" and d: "distinct (cards_head s)"
    by (auto simp: store_ok_def)
  from m d have "distinct (queue s)"
    using mset_eq_imp_distinct_iff by blast
  moreover from m have "mset (map (\<lambda>c. card_id (heap s c)) (queue s)) =
      mset (map (\<lambda>c. card_id (heap s c)) (cards_head s))"
    by (metis mset_map)
  ultimately show ?thesis
    using m by (simp add: drain_eq)
qed

text \<open>
  While the identity counter stays below the largest \<open>int\<close>, the identities stay
  pairwise different: adding a card, deleting one, and committing a loaded block whose
  \<open>ID=\<close> value is below the largest \<open>int\<close> keep \<open>ids_ok\<close>.
\<close>

lemma to_int32_id: "- 2147483648 \<le> x \<Longrightarrow> x \<le> 2147483647 \<Longrightarrow> to_int32 x = x"
  by (simp add: to_int32_def)

lemma ids_ok_sample: "ids_ok (load_sample_cards init_state)"
  by (simp add: ids_ok_def sample_lists sample_heap)

lemma ids_ok_create_card:
  assumes "ids_ok s" and "store_ok s" and "next_card_id s < 2147483647"
  shows "ids_ok (snd (create_card q a tgs s))"
proof -
  from assms(2) have fresh: "next_ptr s \<notin> set (cards_head s)"
    by (auto simp: store_ok_def)
  from assms(1,3) have nx: "to_int32 (next_card_id s + 1) = next_card_id s + 1"
    by (intro to_int32_id) (auto simp: ids_ok_def)
  let ?s1 = "snd (create_card q a tgs s)"
  have ch: "cards_head ?s1 = next_ptr s # cards_head s"
    and nc: "next_card_id ?s1 = next_card_id s + 1"
    and new: "card_id (heap ?s1 (next_ptr s)) = next_card_id s"
    by (simp_all add: create_card_def Let_def nx)
  have old: "heap ?s1 x = heap s x" if "x \<in> set (cards_head s)" for x
    using that fresh by (auto simp: create_card_def Let_def)
  have ids: "map (\<lambda>c. card_id (heap ?s1 c)) (cards_head s) =
      map (\<lambda>c. card_id (heap s c)) (cards_head s)"
    by (rule map_cong) (simp_all add: old)
  from assms(1) have a: "1 \<le> next_card_id s"
    and b: "\<forall>c\<in>set (cards_head s). 1 \<le> card_id (heap s c) \<and> card_id (heap s c) < next_card_id s"
    and c: "distinct (map (\<lambda>c. card_id (heap s c)) (cards_head s))"
    by (simp_all add: ids_ok_def)
  from b have notin: "next_card_id s \<notin> (\<lambda>c. card_id (heap s c)) ` set (cards_head s)"
    by auto
  have "1 \<le> next_card_id ?s1"
    using a by (simp add: nc)
  moreover have "\<forall>x\<in>set (cards_head ?s1). 1 \<le> card_id (heap ?s1 x) \<and> card_id (heap ?s1 x) < next_card_id ?s1"
    using a b by (auto simp: ch nc new old)
  moreover have "distinct (map (\<lambda>c. card_id (heap ?s1 c)) (cards_head ?s1))"
    using c notin by (simp add: ch new ids)
  ultimately show ?thesis
    by (simp add: ids_ok_def)
qed

lemma ids_ok_add:
  assumes "ids_ok s" and "store_ok s" and "next_card_id s < 2147483647"
    and "add_card_interactive s inp = (r, s', inp')"
  shows "ids_ok s'"
proof (cases r)
  case (Added c)
  with assms(4) obtain q a tgs where s': "s' = (snd (create_card q a tgs s))
        \<lparr>heap := (heap (snd (create_card q a tgs s)))
            (next_ptr s := (heap (snd (create_card q a tgs s)) (next_ptr s))\<lparr>due_in := 0\<rparr>),
         queue := queue s @ [next_ptr s]\<rparr>"
    by (auto simp: add_card_interactive_def create_card_def Let_def queue_enqueue_def
        split: option.splits if_splits)
  have same: "card_id (heap s' x) = card_id (heap (snd (create_card q a tgs s)) x)" for x
    by (simp add: s')
  from ids_ok_create_card[OF assms(1-3), of q a tgs] show ?thesis
    unfolding ids_ok_def same by (simp add: s')
next
  case AddInputEnded
  with assms show ?thesis
    by (auto simp: add_card_interactive_def create_card_def Let_def
        split: option.splits if_splits prod.splits)
next
  case EmptyQuestion
  with assms show ?thesis
    by (auto simp: add_card_interactive_def create_card_def Let_def
        split: option.splits if_splits prod.splits)
qed

lemma ids_ok_remove:
  assumes "ids_ok s" and "store_ok s" and "remove_card_interactive s inp = (r, s', inp')"
  shows "ids_ok s'"
proof (cases r)
  case (Deleted c)
  with assms(3) have s': "s' = delete_card c (s\<lparr>queue := filter (\<lambda>x. x \<noteq> c) (queue s)\<rparr>)"
    by (auto simp: remove_card_interactive_def Let_def split: option.splits)
  from assms(2) have d: "distinct (cards_head s)"
    by (simp add: store_ok_def)
  have r: "remove1 c (cards_head s) = filter (\<lambda>x. x \<noteq> c) (cards_head s)"
    using d by (simp add: distinct_remove1_removeAll removeAll_filter_not_eq) (metis)
  have ch: "cards_head s' = filter (\<lambda>x. x \<noteq> c) (cards_head s)"
    and hp: "heap s' = heap s" and nc: "next_card_id s' = next_card_id s"
    by (simp_all add: s' delete_card_def r)
  from assms(1) show ?thesis
    unfolding ids_ok_def ch hp nc by (simp add: distinct_map_filter)
next
  case RemoveInputEnded
  with assms show ?thesis
    by (auto simp: remove_card_interactive_def Let_def split: option.splits)
next
  case (NotFound i)
  with assms show ?thesis
    by (auto simp: remove_card_interactive_def Let_def split: option.splits)
qed

lemma ids_ok_load_commit:
  assumes "ids_ok s" and "store_ok s" and "next_card_id s < 2147483647"
    and "- 2147483648 \<le> lv_id v" and "lv_id v < 2147483647"
  shows "ids_ok (load_commit v s)"
proof (cases "\<exists>q a. qtext v = Some q \<and> atext v = Some a")
  case False
  with assms(1) show ?thesis
    by (auto simp: load_commit_def split: option.splits)
next
  case True
  then obtain q a where qa: "qtext v = Some q" "atext v = Some a" by blast
  let ?tks = "parse_tags (case tagsline v of None \<Rightarrow> [] | Some l \<Rightarrow> l)"
  let ?s1 = "snd (create_card q a ?tks s)"
  from ids_ok_create_card[OF assms(1-3), of q a ?tks] have ok1: "ids_ok ?s1" .
  from assms(4,5) have lv: "to_int32 (lv_id v + 1) = lv_id v + 1"
    by (intro to_int32_id) auto
  have ch: "cards_head (load_commit v s) = cards_head ?s1"
    and ids: "card_id (heap (load_commit v s) x) = card_id (heap ?s1 x)"
    and nx: "next_card_id (load_commit v s) =
        (if lv_id v \<ge> next_card_id ?s1 then lv_id v + 1 else next_card_id ?s1)" for x
    by (simp_all add: load_commit_def qa create_card_def Let_def lv)
  from ok1 have a: "1 \<le> next_card_id ?s1"
    and b: "\<forall>c\<in>set (cards_head ?s1). 1 \<le> card_id (heap ?s1 c) \<and> card_id (heap ?s1 c) < next_card_id ?s1"
    and c: "distinct (map (\<lambda>c. card_id (heap ?s1 c)) (cards_head ?s1))"
    by (simp_all add: ids_ok_def)
  have "1 \<le> next_card_id (load_commit v s)"
    using a by (simp add: nx)
  moreover have "\<forall>x\<in>set (cards_head (load_commit v s)).
      1 \<le> card_id (heap (load_commit v s) x) \<and>
      card_id (heap (load_commit v s) x) < next_card_id (load_commit v s)"
    unfolding ch ids nx using b by fastforce
  moreover have "distinct (map (\<lambda>c. card_id (heap (load_commit v s) c)) (cards_head (load_commit v s)))"
    unfolding ch ids using c .
  ultimately show ?thesis
    by (simp add: ids_ok_def)
qed

lemma ids_ok_distinct:
  assumes "ids_ok s" and "store_ok s"
  shows "distinct (map (\<lambda>c. card_id (heap s c)) (drain (queue s)))"
proof -
  from assms have m: "mset (queue s) = mset (cards_head s)"
    and d: "distinct (map (\<lambda>c. card_id (heap s c)) (cards_head s))"
    by (auto simp: store_ok_def ids_ok_def)
  from m have "mset (map (\<lambda>c. card_id (heap s c)) (queue s)) =
      mset (map (\<lambda>c. card_id (heap s c)) (cards_head s))"
    by (metis mset_map)
  with d have "distinct (map (\<lambda>c. card_id (heap s c)) (queue s))"
    using mset_eq_imp_distinct_iff by blast
  then show ?thesis
    by (simp add: drain_eq)
qed

text \<open>
  The identity counter can wrap while a file is loaded.  \<open>wrap_file\<close> is loaded over the
  sample cards, so the counter stands at 4: the first card gets identity 4 and its
  \<open>ID=2147483647\<close> makes \<open>next_card_id = id + 1\<close> wrap to the smallest \<open>int\<close>, which the
  second card gets; its \<open>ID=3\<close> is not below the counter any more and sets the counter
  back to 4, which the third card gets.
\<close>

lemma wrap_state_loaded:
  "cards_head wrap_state = [5, 4, 3]"
  "queue wrap_state = [3, 4, 5]"
  "next_card_id wrap_state = 5"
  "card_id (heap wrap_state 3) = 4"
  "card_id (heap wrap_state 4) = - 2147483648"
  "card_id (heap wrap_state 5) = 4"
  by (simp_all add: wrap_state_def load_cards_from_file_def wrap_file_def sample_lists
      file_eval atoi_def strtol10_def isspace_def isdigit_def to_int32_def parse_tags_Nil)

lemma wrap_state_added_deleted: "added_deleted wrap_state"
  unfolding wrap_state_def by (rule added_deleted.load) (rule added_deleted.sample)

text \<open>
  C3.  The claim does not hold of the code: after the sample cards and one load of
  \<open>wrap_file\<close> (card creations, each followed by its enqueue) the card list holds three
  cards with the identities 4, \<open>- 2147483648\<close> and 4, and draining the queue yields
  identity 4 twice, not exactly once.
\<close>

theorem load_reuses_card_id:
  "map (\<lambda>c. card_id (heap wrap_state c)) (cards_head wrap_state) = [4, - 2147483648, 4] \<and>
   map (\<lambda>c. card_id (heap wrap_state c)) (drain (queue wrap_state)) = [4, - 2147483648, 4] \<and>
   \<not> distinct (map (\<lambda>c. card_id (heap wrap_state c)) (drain (queue wrap_state)))"
  by (simp add: wrap_state_loaded drain_eq)

end
